theory Spec2Isabelle
  imports Main "HOL-Library.Word"
begin

section \<open>The digital rain of cmatrix.cpp\<close>

text \<open>
  A shallow embedding of class \<open>Matrix\<close> of \<open>src/expt/cmatrix.cpp\<close> (the POSIX branch of
  every \<open>#ifdef _WIN32\<close>) and of \<open>main\<close>. The fields of the class are the fields of the
  record \<open>matrix\<close>; every member function takes the object and returns it updated.

  The C++ \<open>int\<close> fields are modelled by \<open>int\<close>: the terminal size comes from two
  \<open>unsigned short\<close>, and between two ticks brightness stays in 0..10, counters in 0..3
  and the drops between \<open>-60\<close> and \<open>height + 10\<close> (lemma \<open>ok_run\<close> below), so no
  operation of the program leaves the 32-bit range.
\<close>

subsection \<open>The random source\<close>

text \<open>
  \<open>std::mt19937\<close> and \<open>std::uniform_int_distribution\<close> are library code. The generator is
  modelled by the infinite sequence of the raw values it still has to deliver, and a
  distribution over \<open>[a, b]\<close> takes the next raw value into that range. Every sequence of
  in-range results is the behaviour of some generator of the model, and nothing else about
  the library is assumed.
\<close>

type_synonym rng = "nat \<Rightarrow> nat"

definition uniform_int_distribution :: "int \<Rightarrow> int \<Rightarrow> rng \<Rightarrow> int \<times> rng" where
  "uniform_int_distribution a b g = (a + int (g 0) mod (b - a + 1), (\<lambda>n. g (Suc n)))"

subsection \<open>The object\<close>

text \<open>
  Line 33. A \<open>std::string\<close> is a sequence of \<open>char\<close>: the literal of the source file, which
  is encoded in UTF-8, holds three bytes for each of the 46 katakana and one byte for each
  of the 20 digits and symbols.
\<close>

definition matrix_chars :: string where
  "matrix_chars =
     [CHR 0xE3, CHR 0x82, CHR 0xA2, CHR 0xE3, CHR 0x82, CHR 0xA4, CHR 0xE3, CHR 0x82, CHR 0xA6, CHR 0xE3, CHR 0x82, CHR 0xA8,
      CHR 0xE3, CHR 0x82, CHR 0xAA, CHR 0xE3, CHR 0x82, CHR 0xAB, CHR 0xE3, CHR 0x82, CHR 0xAD, CHR 0xE3, CHR 0x82, CHR 0xAF,
      CHR 0xE3, CHR 0x82, CHR 0xB1, CHR 0xE3, CHR 0x82, CHR 0xB3, CHR 0xE3, CHR 0x82, CHR 0xB5, CHR 0xE3, CHR 0x82, CHR 0xB7,
      CHR 0xE3, CHR 0x82, CHR 0xB9, CHR 0xE3, CHR 0x82, CHR 0xBB, CHR 0xE3, CHR 0x82, CHR 0xBD, CHR 0xE3, CHR 0x82, CHR 0xBF,
      CHR 0xE3, CHR 0x83, CHR 0x81, CHR 0xE3, CHR 0x83, CHR 0x84, CHR 0xE3, CHR 0x83, CHR 0x86, CHR 0xE3, CHR 0x83, CHR 0x88,
      CHR 0xE3, CHR 0x83, CHR 0x8A, CHR 0xE3, CHR 0x83, CHR 0x8B, CHR 0xE3, CHR 0x83, CHR 0x8C, CHR 0xE3, CHR 0x83, CHR 0x8D,
      CHR 0xE3, CHR 0x83, CHR 0x8E, CHR 0xE3, CHR 0x83, CHR 0x8F, CHR 0xE3, CHR 0x83, CHR 0x92, CHR 0xE3, CHR 0x83, CHR 0x95,
      CHR 0xE3, CHR 0x83, CHR 0x98, CHR 0xE3, CHR 0x83, CHR 0x9B, CHR 0xE3, CHR 0x83, CHR 0x9E, CHR 0xE3, CHR 0x83, CHR 0x9F,
      CHR 0xE3, CHR 0x83, CHR 0xA0, CHR 0xE3, CHR 0x83, CHR 0xA1, CHR 0xE3, CHR 0x83, CHR 0xA2, CHR 0xE3, CHR 0x83, CHR 0xA4,
      CHR 0xE3, CHR 0x83, CHR 0xA6, CHR 0xE3, CHR 0x83, CHR 0xA8, CHR 0xE3, CHR 0x83, CHR 0xA9, CHR 0xE3, CHR 0x83, CHR 0xAA,
      CHR 0xE3, CHR 0x83, CHR 0xAB, CHR 0xE3, CHR 0x83, CHR 0xAC, CHR 0xE3, CHR 0x83, CHR 0xAD, CHR 0xE3, CHR 0x83, CHR 0xAF,
      CHR 0xE3, CHR 0x83, CHR 0xB2, CHR 0xE3, CHR 0x83, CHR 0xB3]
     @ ''0123456789!@#$%^&*()''"

record matrix =
  width :: int
  height :: int
  screen :: "char list list"
  brightness :: "int list list"
  drops :: "int list"
  speeds :: "int list"
  lengths :: "int list"
  counters :: "int list"
  rng :: rng

text \<open>Lines 63 to 66: the four distributions, fixed once and for all.\<close>

definition char_dist :: "rng \<Rightarrow> int \<times> rng" where
  "char_dist = uniform_int_distribution 0 (int (length matrix_chars) - 1)"

definition speed_dist :: "rng \<Rightarrow> int \<times> rng" where
  "speed_dist = uniform_int_distribution 1 4"

definition length_dist :: "rng \<Rightarrow> int \<times> rng" where
  "length_dist = uniform_int_distribution 7 10"

definition spawn_dist :: "rng \<Rightarrow> int \<times> rng" where
  "spawn_dist = uniform_int_distribution 0 50"

subsection \<open>Loops and two-dimensional writes\<close>

text \<open>
  \<open>for (int i = a; i < n; ++i) body\<close>, for a bound that the body does not change (the
  bounds of the program are \<open>width\<close>, \<open>height\<close> and \<open>lengths[col]\<close>, none of which is
  written inside the loop it bounds).
\<close>

function for_loop :: "int \<Rightarrow> int \<Rightarrow> (int \<Rightarrow> 's \<Rightarrow> 's) \<Rightarrow> 's \<Rightarrow> 's" where
  "for_loop i n body s = (if i < n then for_loop (i + 1) n body (body i s) else s)"
  by pat_completeness auto
termination
  by (relation "measure (\<lambda>(i, n, body, s). nat (n - i))") auto

declare for_loop.simps [simp del]

text \<open>
  \<open>g[row][col] = v\<close> on a vector of vectors. Every write of the program is guarded by
  \<open>0 <= row < height\<close> and \<open>0 <= col < width\<close>, which are the sizes of the vectors.
\<close>

definition at2 :: "'a list list \<Rightarrow> int \<Rightarrow> int \<Rightarrow> 'a" where
  "at2 g row col = g ! nat row ! nat col"

definition set2 :: "'a list list \<Rightarrow> int \<Rightarrow> int \<Rightarrow> 'a \<Rightarrow> 'a list list" where
  "set2 g row col v = g[nat row := (g ! nat row)[nat col := v]]"

definition at1 :: "'a list \<Rightarrow> int \<Rightarrow> 'a" where
  "at1 xs i = xs ! nat i"

definition set1 :: "'a list \<Rightarrow> int \<Rightarrow> 'a \<Rightarrow> 'a list" where
  "set1 xs i v = xs[nat i := v]"

text \<open>\<open>v.resize(n, x)\<close>: keeps the first \<open>n\<close> elements and pads with \<open>x\<close>.\<close>

definition resize :: "int \<Rightarrow> 'a \<Rightarrow> 'a list \<Rightarrow> 'a list" where
  "resize n x xs = take (nat n) xs @ replicate (nat n - length xs) x"

subsection \<open>Construction\<close>

text \<open>\<open>struct winsize\<close>: the two fields that are read, both \<open>unsigned short\<close>.\<close>

record winsize =
  ws_row :: "16 word"
  ws_col :: "16 word"

text \<open>
  Lines 48 to 51. The result of \<open>ioctl\<close> is not looked at: \<open>w\<close> is whatever the call left
  in it, the window size on success and the uninitialised content of the stack otherwise.
\<close>

definition getTerminalSize :: "winsize \<Rightarrow> matrix \<Rightarrow> matrix" where
  "getTerminalSize w m = m\<lparr>width := uint (ws_col w), height := uint (ws_row w)\<rparr>"

text \<open>
  Line 70, the right-hand side \<open>-spawn_dist(rng) - length_dist(rng)\<close>. C++ does not fix the
  order in which the two operands of the subtraction are evaluated, so the order of the
  two draws is a parameter: \<open>spawn_first\<close> is what a left-to-right compiler does.
\<close>

definition initial_head :: "bool \<Rightarrow> rng \<Rightarrow> int \<times> rng" where
  "initial_head spawn_first g =
     (if spawn_first
      then (let (d, g1) = spawn_dist g; (l, g2) = length_dist g1 in (- d - l, g2))
      else (let (l, g1) = length_dist g; (d, g2) = spawn_dist g1 in (- d - l, g2)))"

text \<open>Lines 70 to 73, the body of the loop over the columns.\<close>

definition init_column :: "bool \<Rightarrow> int \<Rightarrow> matrix \<Rightarrow> matrix" where
  "init_column spawn_first i m =
     (let (d, g2) = initial_head spawn_first (rng m);
          (s, g3) = speed_dist g2;
          (l, g4) = length_dist g3
      in m\<lparr>drops := set1 (drops m) i d,
           speeds := set1 (speeds m) i s,
           lengths := set1 (lengths m) i l,
           counters := set1 (counters m) i 0,
           rng := g4\<rparr>)"

definition initializeMatrix :: "bool \<Rightarrow> matrix \<Rightarrow> matrix" where
  "initializeMatrix spawn_first m =
     (let m1 = m\<lparr>screen := resize (height m) (replicate (nat (width m)) CHR '' '') (screen m),
                 brightness := resize (height m) (replicate (nat (width m)) 0) (brightness m),
                 drops := resize (width m) 0 (drops m),
                 speeds := resize (width m) 0 (speeds m),
                 lengths := resize (width m) 0 (lengths m),
                 counters := resize (width m) 0 (counters m)\<rparr>
      in for_loop 0 (width m1) (init_column spawn_first) m1)"

text \<open>
  Lines 36 to 39: the constructor. The vectors start empty, the generator starts from its
  seed, and \<open>width\<close> and \<open>height\<close> hold nothing before \<open>getTerminalSize\<close> writes them.
\<close>

definition Matrix :: "bool \<Rightarrow> winsize \<Rightarrow> rng \<Rightarrow> matrix" where
  "Matrix spawn_first w seed =
     initializeMatrix spawn_first
       (getTerminalSize w
          \<lparr>width = 0, height = 0, screen = [], brightness = [], drops = [], speeds = [],
           lengths = [], counters = [], rng = seed\<rparr>)"

subsection \<open>One tick\<close>

text \<open>Lines 163 to 169, the body of the two loops of the fade pass.\<close>

definition fade_cell :: "int \<Rightarrow> int \<Rightarrow> matrix \<Rightarrow> matrix" where
  "fade_cell row col m =
     (if at2 (brightness m) row col > 0
      then (let m1 = m\<lparr>brightness := set2 (brightness m) row col (at2 (brightness m) row col - 3)\<rparr>
            in if at2 (brightness m1) row col \<le> 0
               then m1\<lparr>brightness := set2 (brightness m1) row col 0,
                       screen := set2 (screen m1) row col CHR '' ''\<rparr>
               else m1)
      else m)"

definition fade_pass :: "matrix \<Rightarrow> matrix" where
  "fade_pass m =
     for_loop 0 (height m) (\<lambda>row. for_loop 0 (width m) (\<lambda>col. fade_cell row col)) m"

text \<open>Lines 183 to 186: the head of the drop.\<close>

definition draw_head :: "int \<Rightarrow> matrix \<Rightarrow> matrix" where
  "draw_head col m =
     (if at1 (drops m) col \<ge> 0 \<and> at1 (drops m) col < height m
      then (let (k, g) = char_dist (rng m)
            in m\<lparr>screen := set2 (screen m) (at1 (drops m) col) col (matrix_chars ! nat k),
                 brightness := set2 (brightness m) (at1 (drops m) col) col 10,
                 rng := g\<rparr>)
      else m)"

text \<open>Lines 190 to 196: the body of the loop over the tail offsets.\<close>

definition tail_step :: "int \<Rightarrow> int \<Rightarrow> matrix \<Rightarrow> matrix" where
  "tail_step col i m =
     (let tail_row = at1 (drops m) col - i
      in if tail_row \<ge> 0 \<and> tail_row < height m
         then (if at2 (brightness m) tail_row col < 10 - i
               then (let (k, g) = char_dist (rng m)
                     in m\<lparr>screen := set2 (screen m) tail_row col (matrix_chars ! nat k),
                          brightness := set2 (brightness m) tail_row col (max 1 (10 - i)),
                          rng := g\<rparr>)
               else m)
         else m)"

definition draw_tail :: "int \<Rightarrow> matrix \<Rightarrow> matrix" where
  "draw_tail col m = for_loop 1 (at1 (lengths m) col) (tail_step col) m"

text \<open>Lines 200 to 204: the reset of a drop that has left the screen.\<close>

definition reset_drop :: "int \<Rightarrow> matrix \<Rightarrow> matrix" where
  "reset_drop col m =
     (if at1 (drops m) col - at1 (lengths m) col > height m
      then (let (d, g1) = spawn_dist (rng m);
                m1 = m\<lparr>drops := set1 (drops m) col (- d - at1 (lengths m) col), rng := g1\<rparr>;
                (s, g2) = speed_dist (rng m1);
                m2 = m1\<lparr>speeds := set1 (speeds m1) col s, rng := g2\<rparr>;
                (l, g3) = length_dist (rng m2)
            in m2\<lparr>lengths := set1 (lengths m2) col l, rng := g3\<rparr>)
      else m)"

text \<open>Lines 179 to 204: what a column does on a tick on which it moves.\<close>

definition advance_drop :: "int \<Rightarrow> matrix \<Rightarrow> matrix" where
  "advance_drop col m =
     m\<lparr>counters := set1 (counters m) col 0, drops := set1 (drops m) col (at1 (drops m) col + 1)\<rparr>"

definition move_column :: "int \<Rightarrow> matrix \<Rightarrow> matrix" where
  "move_column col m = reset_drop col (draw_tail col (draw_head col (advance_drop col m)))"

text \<open>Lines 175 to 205: the body of the loop over the columns.\<close>

definition update_column :: "int \<Rightarrow> matrix \<Rightarrow> matrix" where
  "update_column col m =
     (let m1 = m\<lparr>counters := set1 (counters m) col (at1 (counters m) col + 1)\<rparr>
      in if at1 (counters m1) col \<ge> at1 (speeds m1) col then move_column col m1 else m1)"

definition advance_pass :: "matrix \<Rightarrow> matrix" where
  "advance_pass m = for_loop 0 (width m) update_column m"

definition update :: "matrix \<Rightarrow> matrix" where
  "update m = advance_pass (fade_pass m)"

text \<open>\<open>n\<close> calls of \<open>update\<close> in a row, and the object after construction and \<open>n\<close> ticks.\<close>

primrec ticks :: "nat \<Rightarrow> matrix \<Rightarrow> matrix" where
  "ticks 0 m = m"
| "ticks (Suc n) m = update (ticks n m)"

definition run_ticks :: "bool \<Rightarrow> winsize \<Rightarrow> rng \<Rightarrow> nat \<Rightarrow> matrix" where
  "run_ticks spawn_first w seed n = ticks n (Matrix spawn_first w seed)"

subsection \<open>Painting\<close>

text \<open>
  What \<open>render\<close> writes to \<open>std::cout\<close>, as one string. Lines 115 to 119 and 127: the
  ANSI sequences of \<open>setGreenText\<close> and \<open>resetColor\<close>; line 215: the cursor goes home.
\<close>

definition setGreenText :: "int \<Rightarrow> string" where
  "setGreenText brightness_level =
     (if brightness_level > 5 then CHR 0x1B # ''[92m'' else CHR 0x1B # ''[32m'')"

definition resetColor :: string where
  "resetColor = CHR 0x1B # ''[0m''"

definition cursor_home :: string where
  "cursor_home = CHR 0x1B # ''[H''"

text \<open>Lines 221 to 227: what one cell adds to the output.\<close>

definition render_cell :: "matrix \<Rightarrow> int \<Rightarrow> int \<Rightarrow> string" where
  "render_cell m row col =
     (if at2 (screen m) row col \<noteq> CHR '' '' \<and> at2 (brightness m) row col > 0
      then setGreenText (at2 (brightness m) row col) @ [at2 (screen m) row col] @ resetColor
      else '' '')"

text \<open>Lines 220 to 229: the body of the loop over the rows, on the output so far.\<close>

definition render_row :: "matrix \<Rightarrow> int \<Rightarrow> string \<Rightarrow> string" where
  "render_row m row out =
     (let out1 = for_loop 0 (width m) (\<lambda>col out. out @ render_cell m row col) out
      in if row < height m - 1 then out1 @ [CHR 0x0A] else out1)"

definition render :: "matrix \<Rightarrow> string" where
  "render m = for_loop 0 (height m) (render_row m) cursor_home"

subsection \<open>The process\<close>

text \<open>
  What the process does to the outside, in order: writes to the two streams, calls of
  \<open>system\<close> and of \<open>usleep\<close>.
\<close>

datatype io = Stdout string | Stderr string | System string | Usleep int

text \<open>
  What the outside does to the process. No call of \<open>ioctl\<close>, \<open>tcgetattr\<close>, \<open>tcsetattr\<close>
  or \<open>fcntl\<close> has its result checked, so a failing terminal shows in two places only: in
  the content of \<open>w\<close> after line 49 and in what \<open>getchar\<close> returns in \<open>kbhit\<close>. The one
  operation of the \<open>try\<close> block that can throw is an allocation of the standard library
  (\<open>std::bad_alloc\<close> out of \<open>vector::resize\<close>), and what the allocations of lines 56 to
  61 meet depends on the size that they ask for, which is the size read from \<open>w\<close>: the
  memory is granted, or \<open>operator new\<close> throws, or the system kills the process.
\<close>

datatype alloc = Granted | Refused | Fatal

record world =
  tty :: bool
  window :: winsize
  stack :: winsize
  keys :: "nat \<Rightarrow> bool"
  clock :: rng
  left_to_right :: bool
  allocator :: "int \<Rightarrow> int \<Rightarrow> alloc"

datatype exn = bad_alloc

definition what :: "exn \<Rightarrow> string" where
  "what e = (case e of bad_alloc \<Rightarrow> ''std::bad_alloc'')"

text \<open>
  \<open>tty\<close>: whether the standard streams are a terminal; \<open>window\<close>: the size that
  \<open>ioctl\<close> writes when they are; \<open>stack\<close>: what \<open>w\<close> holds when \<open>ioctl\<close> fails;
  \<open>keys n\<close>: whether the \<open>n\<close>-th call of \<open>kbhit\<close> finds a character; \<open>clock\<close>: the
  generator seeded from \<open>steady_clock\<close>; \<open>left_to_right\<close>: the evaluation order of line 70;
  \<open>allocator height width\<close>: what the allocation of two grids of \<open>height\<close> rows of
  \<open>width\<close> cells and of four vectors of \<open>width\<close> entries meets.
\<close>

definition terminal_size :: "world \<Rightarrow> winsize" where
  "terminal_size wd = (if tty wd then window wd else stack wd)"

text \<open>
  Line 264, the construction of the object: done, or left by an exception, or never
  finished because the process is killed.
\<close>

datatype attempt = Done matrix | Thrown exn | Killed

definition construct :: "world \<Rightarrow> attempt" where
  "construct wd =
     (case allocator wd (uint (ws_row (terminal_size wd))) (uint (ws_col (terminal_size wd))) of
        Granted \<Rightarrow> Done (Matrix (left_to_right wd) (terminal_size wd) (clock wd))
      | Refused \<Rightarrow> Thrown bad_alloc
      | Fatal \<Rightarrow> Killed)"

definition sleep_ms :: "int \<Rightarrow> io" where
  "sleep_ms milliseconds = Usleep (milliseconds * 1000)"

definition clearScreen :: io where
  "clearScreen = System ''clear''"

definition hideCursor :: io where
  "hideCursor = Stdout (CHR 0x1B # ''[?25l'')"

definition showCursor :: io where
  "showCursor = Stdout (CHR 0x1B # ''[?25h'')"

text \<open>
  Lines 249 to 253: the loop of \<open>run\<close>, which ends when \<open>kbhit\<close> answers yes and not before.
  \<open>n\<close> counts the calls of \<open>kbhit\<close>; the result is the object and the trace at the exit
  of the loop, and \<open>None\<close> when the loop never ends.
\<close>

partial_function (option) run_loop :: "(nat \<Rightarrow> bool) \<Rightarrow> nat \<Rightarrow> matrix \<Rightarrow> io list \<Rightarrow> (matrix \<times> io list) option" where
  "run_loop kbhit n m tr =
     (if \<not> kbhit n
      then run_loop kbhit (Suc n) (update m) (tr @ [Stdout (render (update m)), sleep_ms 8])
      else Some (m, tr))"

definition run :: "world \<Rightarrow> matrix \<Rightarrow> io list option" where
  "run wd m =
     (case run_loop (keys wd) 0 m
             [clearScreen, hideCursor,
              Stdout (''Matrix Digital Rain - Press any key to exit'' @ [CHR 0x0A]), sleep_ms 2000]
      of None \<Rightarrow> None
       | Some (m', tr) \<Rightarrow>
           Some (tr @ [showCursor, Stdout resetColor, clearScreen,
                       Stdout (''Matrix effect terminated.'' @ [CHR 0x0A])]))"

text \<open>
  Lines 262 to 272. How the process ends, when it ends: \<open>main\<close> returns an exit code after
  a trace, or the process was killed and \<open>main\<close> returns nothing.
\<close>

datatype outcome = Exit int "io list" | Signalled

definition main :: "world \<Rightarrow> outcome option" where
  "main wd =
     (case construct wd of
        Thrown e \<Rightarrow> Some (Exit 1 [Stderr (''Error: '' @ what e @ [CHR 0x0A])])
      | Killed \<Rightarrow> Some Signalled
      | Done m \<Rightarrow> (case run wd m of None \<Rightarrow> None | Some tr \<Rightarrow> Some (Exit 0 tr)))"

subsection \<open>Words of the specification\<close>

text \<open>Rows with a separator between two of them and none after the last.\<close>

fun join_rows :: "string list \<Rightarrow> string" where
  "join_rows [] = []"
| "join_rows [r] = r"
| "join_rows (r # rs) = r @ [CHR 0x0A] @ join_rows rs"

text \<open>The cells of one row, from left to right, and a grid that is blank all over.\<close>

definition row_text :: "matrix \<Rightarrow> int \<Rightarrow> string" where
  "row_text m row = concat (map (render_cell m row) [0..width m - 1])"

definition blank :: "matrix \<Rightarrow> bool" where
  "blank m \<longleftrightarrow> (\<forall>row\<in>{0..<height m}. \<forall>col\<in>{0..<width m}. at2 (brightness m) row col = 0)"

text \<open>
  The symbol alphabet: the characters of the literal of line 33, each one as the bytes of
  its UTF-8 encoding. The first byte of an encoded character tells how many bytes it has;
  the literal holds no more characters than bytes, which bounds the recursion.
\<close>

definition utf8_length :: "char \<Rightarrow> nat" where
  "utf8_length c =
     (if (of_char c :: nat) < 0x80 then 1
      else if (of_char c :: nat) < 0xE0 then 2
      else if (of_char c :: nat) < 0xF0 then 3 else 4)"

fun utf8_split :: "nat \<Rightarrow> string \<Rightarrow> string list" where
  "utf8_split fuel [] = []"
| "utf8_split 0 (c # cs) = []"
| "utf8_split (Suc fuel) (c # cs) =
     take (utf8_length c) (c # cs) # utf8_split fuel (drop (utf8_length c) (c # cs))"

definition symbol_alphabet :: "string list" where
  "symbol_alphabet = utf8_split (length matrix_chars) matrix_chars"

text \<open>What a trace wrote to the error stream.\<close>

fun stderr_text :: "io list \<Rightarrow> string" where
  "stderr_text [] = []"
| "stderr_text (Stderr s # tr) = s @ stderr_text tr"
| "stderr_text (e # tr) = stderr_text tr"

subsection \<open>Invariants\<close>

text \<open>
  The vectors have the sizes that the constructor gave them: \<open>height\<close> rows of \<open>width\<close>
  cells in the two grids, \<open>width\<close> entries in the four vectors of the columns. Under
  \<open>shape\<close> every index that the program uses is in range, so \<open>at1\<close>, \<open>at2\<close>, \<open>set1\<close>
  and \<open>set2\<close> are the reads and writes of the source.
\<close>

definition grid_shape :: "int \<Rightarrow> int \<Rightarrow> 'a list list \<Rightarrow> bool" where
  "grid_shape w h g \<longleftrightarrow> length g = nat h \<and> (\<forall>r\<in>set g. length r = nat w)"

definition cols_shape :: "matrix \<Rightarrow> bool" where
  "cols_shape m \<longleftrightarrow>
     length (drops m) = nat (width m) \<and> length (speeds m) = nat (width m) \<and>
     length (lengths m) = nat (width m) \<and> length (counters m) = nat (width m)"

definition shape :: "matrix \<Rightarrow> bool" where
  "shape m \<longleftrightarrow>
     0 \<le> width m \<and> 0 \<le> height m \<and>
     grid_shape (width m) (height m) (screen m) \<and>
     grid_shape (width m) (height m) (brightness m) \<and>
     length (drops m) = nat (width m) \<and> length (speeds m) = nat (width m) \<and>
     length (lengths m) = nat (width m) \<and> length (counters m) = nat (width m)"

text \<open>
  A cell: its brightness lies in \<open>[0, 10]\<close>, and its glyph is the space exactly when the
  brightness is 0.
\<close>

definition cell_ok :: "char \<Rightarrow> int \<Rightarrow> bool" where
  "cell_ok ch b \<longleftrightarrow> 0 \<le> b \<and> b \<le> 10 \<and> (ch = CHR '' '' \<longleftrightarrow> b = 0)"

definition cells_ok :: "matrix \<Rightarrow> bool" where
  "cells_ok m \<longleftrightarrow>
     (\<forall>row\<in>{0..<height m}. \<forall>col\<in>{0..<width m}.
        cell_ok (at2 (screen m) row col) (at2 (brightness m) row col))"

text \<open>
  The brightness and the glyph of a cell, and what the fade pass makes of them: three less,
  not below 0, and the space once 0 is reached.
\<close>

definition cell :: "matrix \<Rightarrow> int \<Rightarrow> int \<Rightarrow> int \<times> char" where
  "cell m row col = (at2 (brightness m) row col, at2 (screen m) row col)"

definition faded :: "int \<times> char \<Rightarrow> int \<times> char" where
  "faded = (\<lambda>(b, ch). (max 0 (b - 3), if b \<le> 3 then CHR '' '' else ch))"

text \<open>
  A column between two ticks, on a screen of \<open>h\<close> rows: head \<open>d\<close>, speed \<open>s\<close>, trail
  length \<open>l\<close> and counter \<open>c\<close>.
\<close>

definition column_ok :: "int \<Rightarrow> int \<Rightarrow> int \<Rightarrow> int \<Rightarrow> int \<Rightarrow> bool" where
  "column_ok h d s l c \<longleftrightarrow>
     7 \<le> l \<and> l \<le> 10 \<and> 1 \<le> s \<and> s \<le> 4 \<and> 0 \<le> c \<and> c < s \<and> - 60 \<le> d \<and> d \<le> h + l"

definition columns_ok :: "matrix \<Rightarrow> bool" where
  "columns_ok m \<longleftrightarrow>
     (\<forall>col\<in>{0..<width m}.
        column_ok (height m) (at1 (drops m) col) (at1 (speeds m) col) (at1 (lengths m) col)
          (at1 (counters m) col))"

text \<open>
  \<open>grid_ok\<close> holds at every point of a tick; \<open>ok\<close> holds between the ticks and between the
  columns of the advance pass (inside lines 175 to 204 a counter may have reached its speed
  and a head may be one row further than \<open>column_ok\<close> allows).
\<close>

definition grid_ok :: "matrix \<Rightarrow> bool" where
  "grid_ok m \<longleftrightarrow> shape m \<and> cells_ok m"

definition ok :: "matrix \<Rightarrow> bool" where
  "ok m \<longleftrightarrow> grid_ok m \<and> columns_ok m"

text \<open>
  The four values of a column, and what lines 175 to 204 make of them when \<open>g\<close> is the
  generator at line 200.
\<close>

definition column :: "matrix \<Rightarrow> int \<Rightarrow> int \<times> int \<times> int \<times> int" where
  "column m c = (at1 (drops m) c, at1 (speeds m) c, at1 (lengths m) c, at1 (counters m) c)"

definition next_column :: "int \<Rightarrow> rng \<Rightarrow> int \<times> int \<times> int \<times> int \<Rightarrow> int \<times> int \<times> int \<times> int" where
  "next_column h g = (\<lambda>(d, s, l, k).
     if k + 1 \<ge> s
     then (if d + 1 - l > h
           then (- fst (spawn_dist g) - l,
                 fst (speed_dist (snd (spawn_dist g))),
                 fst (length_dist (snd (speed_dist (snd (spawn_dist g))))), 0)
           else (d + 1, s, l, 0))
     else (d, s, l, k + 1))"

text \<open>What a step leaves as it was.\<close>

definition same_dims :: "matrix \<Rightarrow> matrix \<Rightarrow> bool" where
  "same_dims m m' \<longleftrightarrow> width m' = width m \<and> height m' = height m"

definition same_columns :: "matrix \<Rightarrow> matrix \<Rightarrow> bool" where
  "same_columns m m' \<longleftrightarrow>
     same_dims m m' \<and> drops m' = drops m \<and>
     speeds m' = speeds m \<and> lengths m' = lengths m \<and> counters m' = counters m"

definition same_grid :: "matrix \<Rightarrow> matrix \<Rightarrow> bool" where
  "same_grid m m' \<longleftrightarrow> same_dims m m' \<and> screen m' = screen m \<and> brightness m' = brightness m"

definition fade_inv :: "matrix \<Rightarrow> matrix \<Rightarrow> bool" where
  "fade_inv m s \<longleftrightarrow> grid_ok s \<and> same_columns m s \<and> rng s = rng m"

text \<open>
  The sweep of the tail of a column. Offset \<open>i\<close> is rewritten when its row is on the
  screen and its cell is dimmer than \<open>10 - i\<close>; \<open>drawn m col i\<close> counts the offsets below
  \<open>i\<close> that are rewritten, which is the number of glyphs that the sweep has drawn from the
  generator when it comes to offset \<open>i\<close>.
\<close>

definition rewritten :: "matrix \<Rightarrow> int \<Rightarrow> int \<Rightarrow> bool" where
  "rewritten m col i \<longleftrightarrow>
     0 \<le> at1 (drops m) col - i \<and> at1 (drops m) col - i < height m
     \<and> at2 (brightness m) (at1 (drops m) col - i) col < 10 - i"

definition drawn :: "matrix \<Rightarrow> int \<Rightarrow> int \<Rightarrow> nat" where
  "drawn m col i = length (filter (rewritten m col) [1..i - 1])"

text \<open>
  What the sweep has made of a cell once the offsets below \<open>j\<close> are done, and the object
  at that point of the loop.
\<close>

definition tail_cell :: "matrix \<Rightarrow> int \<Rightarrow> int \<Rightarrow> int \<Rightarrow> int \<Rightarrow> int \<times> char" where
  "tail_cell m col j row c =
     (if c = col \<and> 1 \<le> at1 (drops m) col - row \<and> at1 (drops m) col - row < j
         \<and> rewritten m col (at1 (drops m) col - row)
      then (max 1 (10 - (at1 (drops m) col - row)),
            matrix_chars ! (rng m (drawn m col (at1 (drops m) col - row)) mod 158))
      else cell m row c)"

definition swept_to :: "matrix \<Rightarrow> int \<Rightarrow> int \<Rightarrow> matrix \<Rightarrow> bool" where
  "swept_to m col j s \<longleftrightarrow>
     grid_ok s \<and> same_columns m s \<and> rng s = (\<lambda>n. rng m (n + drawn m col j))
     \<and> (\<forall>row c. 0 \<le> row \<and> row < height m \<and> 0 \<le> c \<and> c < width m \<longrightarrow>
           cell s row c = tail_cell m col j row c)"

subsection \<open>Concrete inputs\<close>

text \<open>Terminals, by rows and columns.\<close>

definition window_0x1 :: winsize where
  "window_0x1 = \<lparr>ws_row = 0, ws_col = 1\<rparr>"

definition window_1x1 :: winsize where
  "window_1x1 = \<lparr>ws_row = 1, ws_col = 1\<rparr>"

definition window_2x2 :: winsize where
  "window_2x2 = \<lparr>ws_row = 2, ws_col = 2\<rparr>"

definition window_4x1 :: winsize where
  "window_4x1 = \<lparr>ws_row = 4, ws_col = 1\<rparr>"

definition window_5x3 :: winsize where
  "window_5x3 = \<lparr>ws_row = 5, ws_col = 3\<rparr>"

text \<open>Generators, by the raw values that they deliver.\<close>

definition seed_zero :: rng where
  "seed_zero = (\<lambda>n. 0)"

definition seed_a :: rng where
  "seed_a = (\<lambda>n. if n < 4 then 0 else 1)"

definition seed_b :: rng where
  "seed_b = (\<lambda>n. 2)"

definition seed_c :: rng where
  "seed_c = (\<lambda>n. if n < 4 then 0 else 3)"

definition seed_count :: rng where
  "seed_count = (\<lambda>n. if n < 4 then 0 else n)"

definition seed_s :: rng where
  "seed_s = (\<lambda>n. [0, 0, 0, 1, 3, 1, 1, 2, 5, 2, 4, 3, 9, 6] ! (n mod 14))"

text \<open>
  An allocator that grants a million cells and refuses more, and one under which the system
  kills the process that asks for more.
\<close>

definition million :: "int \<Rightarrow> int \<Rightarrow> alloc" where
  "million h w = (if h * w \<le> 1000000 then Granted else Refused)"

definition overcommitted :: "int \<Rightarrow> int \<Rightarrow> alloc" where
  "overcommitted h w = (if h * w \<le> 1000000 then Granted else Fatal)"

text \<open>
  Worlds. No terminal, one row and one column left on the stack, and a character waiting
  at once; no terminal and 65535 rows and columns left on the stack, under either
  allocator; a terminal of five rows and three columns with a key at the twentieth poll;
  no terminal, the same size left on the stack and never a key.
\<close>

definition no_terminal :: world where
  "no_terminal = \<lparr>tty = False, window = window_0x1, stack = window_1x1, keys = (\<lambda>n. True),
     clock = seed_a, left_to_right = True, allocator = million\<rparr>"

definition no_terminal_garbage :: world where
  "no_terminal_garbage = \<lparr>tty = False, window = window_0x1,
     stack = \<lparr>ws_row = 65535, ws_col = 65535\<rparr>, keys = (\<lambda>n. True),
     clock = seed_a, left_to_right = True, allocator = million\<rparr>"

definition no_terminal_killed :: world where
  "no_terminal_killed = \<lparr>tty = False, window = window_0x1,
     stack = \<lparr>ws_row = 65535, ws_col = 65535\<rparr>, keys = (\<lambda>n. True),
     clock = seed_a, left_to_right = True, allocator = overcommitted\<rparr>"

definition terminal_a :: world where
  "terminal_a = \<lparr>tty = True, window = window_5x3, stack = window_1x1, keys = (\<lambda>n. n = 20),
     clock = seed_s, left_to_right = True, allocator = million\<rparr>"

definition terminal_b :: world where
  "terminal_b = \<lparr>tty = False, window = window_0x1, stack = window_5x3, keys = (\<lambda>n. False),
     clock = seed_s, left_to_right = True, allocator = million\<rparr>"

section \<open>Lemmas\<close>

subsection \<open>Loops\<close>

lemma for_loop_empty: "n \<le> a \<Longrightarrow> for_loop a n body s = s"
  by (simp add: for_loop.simps [of a])

lemma for_loop_first: "a < n \<Longrightarrow> for_loop a n body s = for_loop (a + 1) n body (body a s)"
  by (simp add: for_loop.simps [of a])

lemma for_loop_inv_aux:
  assumes step: "\<And>i s. a \<le> i \<Longrightarrow> i < n \<Longrightarrow> P s \<Longrightarrow> P (body i s)"
  shows "k = nat (n - i) \<Longrightarrow> a \<le> i \<Longrightarrow> P s \<Longrightarrow> P (for_loop i n body s)"
proof (induction k arbitrary: i s)
  case 0
  then show ?case by (simp add: for_loop_empty)
next
  case (Suc k)
  then have lt: "i < n" by simp
  have "P (body i s)" using Suc.prems lt by (intro step) simp_all
  moreover have "k = nat (n - (i + 1))" using Suc.prems by simp
  ultimately have "P (for_loop (i + 1) n body (body i s))"
    using Suc.IH [of "i + 1" "body i s"] Suc.prems by simp
  then show ?case using lt by (simp add: for_loop_first)
qed

lemma for_loop_inv:
  assumes "P s" and "\<And>i s. a \<le> i \<Longrightarrow> i < n \<Longrightarrow> P s \<Longrightarrow> P (body i s)"
  shows "P (for_loop a n body s)"
  using for_loop_inv_aux [of a n P body "nat (n - a)" a s] assms by simp

lemma for_loop_split_aux:
  "k = nat (c - a) \<Longrightarrow> a \<le> c \<Longrightarrow> c \<le> n \<Longrightarrow>
     for_loop a n body s = for_loop c n body (for_loop a c body s)"
proof (induction k arbitrary: a s)
  case 0
  then have "a = c" by simp
  then show ?case by (simp add: for_loop_empty)
next
  case (Suc k)
  then have lt: "a < c" by simp
  have "for_loop a n body s = for_loop (a + 1) n body (body a s)"
    using lt Suc.prems by (simp add: for_loop_first)
  also have "\<dots> = for_loop c n body (for_loop (a + 1) c body (body a s))"
    using Suc.IH [of "a + 1" "body a s"] Suc.prems by simp
  also have "for_loop (a + 1) c body (body a s) = for_loop a c body s"
    using lt by (simp add: for_loop_first)
  finally show ?case .
qed

lemma for_loop_split:
  "a \<le> c \<Longrightarrow> c \<le> n \<Longrightarrow> for_loop a n body s = for_loop c n body (for_loop a c body s)"
  using for_loop_split_aux [of "nat (c - a)" c a n body s] by simp

subsection \<open>Reads and writes\<close>

lemma at1_set1:
  "0 \<le> i \<Longrightarrow> i < int (length xs) \<Longrightarrow> 0 \<le> j \<Longrightarrow>
     at1 (set1 xs i v) j = (if j = i then v else at1 xs j)"
  by (auto simp: at1_def set1_def nth_list_update)

lemma length_set1 [simp]: "length (set1 xs i v) = length xs"
  by (simp add: set1_def)

lemma grid_shape_set2: "grid_shape w h g \<Longrightarrow> grid_shape w h (set2 g row col v)"
proof -
  assume g: "grid_shape w h g"
  show ?thesis
  proof (cases "nat row < length g")
    case True
    then have "g ! nat row \<in> set g" by simp
    then have new: "length ((g ! nat row)[nat col := v]) = nat w"
      using g by (simp add: grid_shape_def)
    have sub: "set (g[nat row := (g ! nat row)[nat col := v]])
        \<subseteq> insert ((g ! nat row)[nat col := v]) (set g)"
      by (rule set_update_subset_insert)
    have "\<forall>r\<in>set (g[nat row := (g ! nat row)[nat col := v]]). length r = nat w"
    proof
      fix r assume "r \<in> set (g[nat row := (g ! nat row)[nat col := v]])"
      then have "r = (g ! nat row)[nat col := v] \<or> r \<in> set g" using sub by auto
      then show "length r = nat w" using new g by (auto simp: grid_shape_def)
    qed
    then show ?thesis using g by (simp add: grid_shape_def set2_def)
  next
    case False
    then show ?thesis using g by (simp add: set2_def list_update_beyond)
  qed
qed

lemma at2_set2:
  assumes "grid_shape w h g" "0 \<le> row" "row < h" "0 \<le> col" "col < w"
    and "0 \<le> r" "0 \<le> c"
  shows "at2 (set2 g row col v) r c = (if r = row \<and> c = col then v else at2 g r c)"
proof -
  have len: "nat row < length g" using assms by (simp add: grid_shape_def)
  then have "g ! nat row \<in> set g" by simp
  then have lenr: "nat col < length (g ! nat row)" using assms by (simp add: grid_shape_def)
  have eqr: "nat r = nat row \<longleftrightarrow> r = row" and eqc: "nat c = nat col \<longleftrightarrow> c = col"
    using assms by auto
  show ?thesis
    using len lenr eqr eqc by (auto simp: at2_def set2_def nth_list_update)
qed

subsection \<open>Draws\<close>

lemma uniform_int_distribution_range:
  "a \<le> b \<Longrightarrow> a \<le> fst (uniform_int_distribution a b g) \<and> fst (uniform_int_distribution a b g) \<le> b"
proof -
  assume "a \<le> b"
  then have pos: "0 < b - a + 1" by simp
  have "0 \<le> int (g 0) mod (b - a + 1)" using pos by (rule pos_mod_sign)
  moreover have "int (g 0) mod (b - a + 1) < b - a + 1" using pos by (rule pos_mod_bound)
  ultimately have "a \<le> a + int (g 0) mod (b - a + 1) \<and> a + int (g 0) mod (b - a + 1) \<le> b"
    by linarith
  then show ?thesis by (simp only: uniform_int_distribution_def fst_conv)
qed

text \<open>Every value of the range is drawn from some generator.\<close>

lemma uniform_int_distribution_onto:
  assumes "a \<le> v" "v \<le> b"
  shows "fst (uniform_int_distribution a b (\<lambda>n. nat (v - a))) = v"
  using assms by (simp add: uniform_int_distribution_def)

lemma length_matrix_chars: "length matrix_chars = 158"
  by (simp add: matrix_chars_def)

lemma space_not_in_matrix_chars: "CHR '' '' \<notin> set matrix_chars"
  by (simp add: matrix_chars_def)

lemma char_dist_range: "0 \<le> fst (char_dist g) \<and> fst (char_dist g) < 158"
  using uniform_int_distribution_range [of 0 157 g] by (simp add: char_dist_def length_matrix_chars)

lemma char_dist_glyph: "matrix_chars ! nat (fst (char_dist g)) \<in> set matrix_chars"
proof (rule nth_mem)
  show "nat (fst (char_dist g)) < length matrix_chars"
    using char_dist_range [of g] unfolding length_matrix_chars by linarith
qed

lemma char_dist_not_space: "matrix_chars ! nat (fst (char_dist g)) \<noteq> CHR '' ''"
  using char_dist_glyph [of g] space_not_in_matrix_chars by metis

lemma speed_dist_range: "1 \<le> fst (speed_dist g) \<and> fst (speed_dist g) \<le> 4"
  using uniform_int_distribution_range [of 1 4 g] by (simp add: speed_dist_def)

lemma length_dist_range: "7 \<le> fst (length_dist g) \<and> fst (length_dist g) \<le> 10"
  using uniform_int_distribution_range [of 7 10 g] by (simp add: length_dist_def)

lemma spawn_dist_range: "0 \<le> fst (spawn_dist g) \<and> fst (spawn_dist g) \<le> 50"
  using uniform_int_distribution_range [of 0 50 g] by (simp add: spawn_dist_def)

subsection \<open>What a write leaves alone\<close>

lemma same_columns_refl: "same_columns m m"
  by (simp add: same_columns_def same_dims_def)

lemma same_columns_trans: "same_columns m m1 \<Longrightarrow> same_columns m1 m2 \<Longrightarrow> same_columns m m2"
  by (simp add: same_columns_def same_dims_def)

lemma same_columns_column: "same_columns m m' \<Longrightarrow> column m' c = column m c"
  by (simp add: same_columns_def column_def)

lemma grid_ok_cellD:
  "grid_ok m \<Longrightarrow> 0 \<le> row \<Longrightarrow> row < height m \<Longrightarrow> 0 \<le> col \<Longrightarrow> col < width m \<Longrightarrow>
     cell_ok (at2 (screen m) row col) (at2 (brightness m) row col)"
  by (simp add: grid_ok_def cells_ok_def)

lemma grid_ok_shapeD: "grid_ok m \<Longrightarrow> shape m"
  by (simp add: grid_ok_def)

lemma shape_gridD:
  "shape m \<Longrightarrow> grid_shape (width m) (height m) (screen m)"
  "shape m \<Longrightarrow> grid_shape (width m) (height m) (brightness m)"
  by (simp_all add: shape_def)

lemma ok_columnD:
  "ok m \<Longrightarrow> 0 \<le> col \<Longrightarrow> col < width m \<Longrightarrow>
     column_ok (height m) (at1 (drops m) col) (at1 (speeds m) col) (at1 (lengths m) col)
       (at1 (counters m) col)"
  by (simp add: ok_def columns_ok_def)

text \<open>A write of a glyph and a brightness that fit together keeps the invariant of the grid.\<close>

lemma grid_ok_write_cell:
  assumes m: "grid_ok m" and rc: "0 \<le> row" "row < height m" "0 \<le> col" "col < width m"
    and v: "cell_ok ch v"
    and m': "same_columns m m'" "screen m' = set2 (screen m) row col ch"
      "brightness m' = set2 (brightness m) row col v"
  shows "grid_ok m'"
proof -
  have sh: "shape m" using m by (rule grid_ok_shapeD)
  note gs = shape_gridD(1) [OF sh] and gb = shape_gridD(2) [OF sh]
  have "shape m'"
    using sh m' grid_shape_set2 [OF gs] grid_shape_set2 [OF gb]
    by (simp add: shape_def same_columns_def same_dims_def)
  moreover have "cells_ok m'"
    unfolding cells_ok_def
  proof (intro ballI)
    fix r c assume "r \<in> {0..<height m'}" "c \<in> {0..<width m'}"
    then have r: "0 \<le> r" "r < height m" and c: "0 \<le> c" "c < width m"
      using m' by (simp_all add: same_columns_def same_dims_def)
    have old: "cell_ok (at2 (screen m) r c) (at2 (brightness m) r c)"
      using m r c by (simp add: grid_ok_cellD)
    show "cell_ok (at2 (screen m') r c) (at2 (brightness m') r c)"
      using old v
      by (simp add: m' at2_set2 [OF gs rc r(1) c(1)] at2_set2 [OF gb rc r(1) c(1)])
  qed
  ultimately show ?thesis by (simp add: grid_ok_def)
qed

text \<open>A write to the vectors of the columns, of the same sizes, keeps it too.\<close>

lemma grid_ok_same_grid:
  assumes m: "grid_ok m" and m': "same_grid m m'"
    and len: "length (drops m') = length (drops m)" "length (speeds m') = length (speeds m)"
      "length (lengths m') = length (lengths m)" "length (counters m') = length (counters m)"
  shows "grid_ok m'"
  using m m' len by (simp add: grid_ok_def shape_def cells_ok_def same_grid_def same_dims_def)

lemma set2_same: "set2 g row col (at2 g row col) = g"
  by (simp add: set2_def at2_def)

subsection \<open>The fade pass\<close>

lemma fade_cell_same_columns: "same_columns m (fade_cell row col m)"
  by (simp add: fade_cell_def same_columns_def same_dims_def Let_def)

lemma fade_cell_rng: "rng (fade_cell row col m) = rng m"
  by (simp add: fade_cell_def Let_def)

lemma fade_cell_grid_ok:
  assumes m: "grid_ok m" and rc: "0 \<le> row" "row < height m" "0 \<le> col" "col < width m"
  shows "grid_ok (fade_cell row col m)"
proof -
  let ?b = "at2 (brightness m) row col"
  let ?ch = "at2 (screen m) row col"
  have sh: "shape m" using m by (rule grid_ok_shapeD)
  note gb = shape_gridD(2) [OF sh]
  have old: "cell_ok ?ch ?b" using m rc by (rule grid_ok_cellD)
  have rd: "at2 (set2 (brightness m) row col v) row col = v" for v
    using at2_set2 [OF gb rc rc(1) rc(3)] by simp
  consider "?b \<le> 0" | "0 < ?b" "?b - 3 \<le> 0" | "0 < ?b - 3" by linarith
  then show ?thesis
  proof cases
    case 1
    then show ?thesis using m by (simp add: fade_cell_def)
  next
    case 2
    then have eq: "fade_cell row col m =
        m\<lparr>brightness := set2 (set2 (brightness m) row col (?b - 3)) row col 0,
          screen := set2 (screen m) row col CHR '' ''\<rparr>"
      by (simp add: fade_cell_def Let_def rd)
    have "nat row < length (brightness m)" using gb rc by (simp add: grid_shape_def)
    then have two: "set2 (set2 (brightness m) row col (?b - 3)) row col 0 = set2 (brightness m) row col 0"
      by (simp add: set2_def)
    show ?thesis
      unfolding eq two
      by (rule grid_ok_write_cell [OF m rc, of "CHR '' ''" 0])
        (simp_all add: cell_ok_def same_columns_def same_dims_def)
  next
    case 3
    then have eq: "fade_cell row col m = m\<lparr>brightness := set2 (brightness m) row col (?b - 3)\<rparr>"
      by (simp add: fade_cell_def Let_def rd)
    have "cell_ok ?ch (?b - 3)" using old 3 by (auto simp: cell_ok_def)
    then show ?thesis
      unfolding eq
      by (rule grid_ok_write_cell [OF m rc, of ?ch "?b - 3"])
        (simp_all add: same_columns_def same_dims_def set2_same)
  qed
qed

lemma fade_cell_inv:
  assumes "fade_inv m s" "0 \<le> row" "row < height m" "0 \<le> col" "col < width m"
  shows "fade_inv m (fade_cell row col s)"
proof -
  have d: "height s = height m" "width s = width m"
    using assms(1) by (simp_all add: fade_inv_def same_columns_def same_dims_def)
  have "grid_ok (fade_cell row col s)"
    using assms by (intro fade_cell_grid_ok) (simp_all add: fade_inv_def d)
  moreover have "same_columns m (fade_cell row col s)"
    using assms(1) fade_cell_same_columns [of s row col]
    by (auto simp: fade_inv_def intro: same_columns_trans)
  ultimately show ?thesis using assms(1) by (simp add: fade_inv_def fade_cell_rng)
qed

lemma fade_pass_inv: "grid_ok m \<Longrightarrow> fade_inv m (fade_pass m)"
  unfolding fade_pass_def
proof (rule for_loop_inv [where P = "fade_inv m"])
  show "grid_ok m \<Longrightarrow> fade_inv m m" by (simp add: fade_inv_def same_columns_refl)
next
  fix row s
  assume row: "0 \<le> row" "row < height m" and s: "fade_inv m s"
  show "fade_inv m (for_loop 0 (width m) (\<lambda>col. fade_cell row col) s)"
    by (rule for_loop_inv [where P = "fade_inv m", OF s]) (rule fade_cell_inv [OF _ row])
qed

lemma fade_pass_ok: "ok m \<Longrightarrow> ok (fade_pass m)"
  using fade_pass_inv [of m]
  by (simp add: ok_def fade_inv_def columns_ok_def same_columns_def same_dims_def)

subsection \<open>The head and the tail\<close>

lemma draw_head_eq:
  "draw_head col m =
     (if at1 (drops m) col \<ge> 0 \<and> at1 (drops m) col < height m
      then m\<lparr>screen := set2 (screen m) (at1 (drops m) col) col
                   (matrix_chars ! nat (fst (char_dist (rng m)))),
             brightness := set2 (brightness m) (at1 (drops m) col) col 10,
             rng := snd (char_dist (rng m))\<rparr>
      else m)"
  by (simp add: draw_head_def split: prod.splits)

lemma tail_step_eq:
  "tail_step col i m =
     (if at1 (drops m) col - i \<ge> 0 \<and> at1 (drops m) col - i < height m
         \<and> at2 (brightness m) (at1 (drops m) col - i) col < 10 - i
      then m\<lparr>screen := set2 (screen m) (at1 (drops m) col - i) col
                   (matrix_chars ! nat (fst (char_dist (rng m)))),
             brightness := set2 (brightness m) (at1 (drops m) col - i) col (max 1 (10 - i)),
             rng := snd (char_dist (rng m))\<rparr>
      else m)"
  by (simp add: tail_step_def Let_def split: prod.splits)

lemma draw_head_same_columns: "same_columns m (draw_head col m)"
  by (simp add: draw_head_eq same_columns_def same_dims_def)

lemma draw_head_grid_ok:
  assumes m: "grid_ok m" and col: "0 \<le> col" "col < width m"
  shows "grid_ok (draw_head col m)"
proof (cases "at1 (drops m) col \<ge> 0 \<and> at1 (drops m) col < height m")
  case True
  then have row: "0 \<le> at1 (drops m) col" "at1 (drops m) col < height m" by simp_all
  have "cell_ok (matrix_chars ! nat (fst (char_dist (rng m)))) 10"
    by (simp add: cell_ok_def char_dist_not_space)
  then show ?thesis
    by (rule grid_ok_write_cell [OF m row col])
      (simp_all add: draw_head_same_columns, simp_all only: draw_head_eq True if_True, simp_all)
next
  case False
  then have "draw_head col m = m" by (simp only: draw_head_eq if_False)
  then show ?thesis using m by simp
qed

lemma tail_step_same_columns: "same_columns m (tail_step col i m)"
  by (simp add: tail_step_eq same_columns_def same_dims_def)

lemma tail_step_grid_ok:
  assumes m: "grid_ok m" and col: "0 \<le> col" "col < width m" and i: "1 \<le> i"
  shows "grid_ok (tail_step col i m)"
proof (cases "at1 (drops m) col - i \<ge> 0 \<and> at1 (drops m) col - i < height m
    \<and> at2 (brightness m) (at1 (drops m) col - i) col < 10 - i")
  case True
  then have row: "0 \<le> at1 (drops m) col - i" "at1 (drops m) col - i < height m" by simp_all
  have "cell_ok (matrix_chars ! nat (fst (char_dist (rng m)))) (max 1 (10 - i))"
    using i by (auto simp: cell_ok_def char_dist_not_space max_def)
  then show ?thesis
    by (rule grid_ok_write_cell [OF m row col])
      (simp_all add: tail_step_same_columns, simp_all only: tail_step_eq True if_True, simp_all)
next
  case False
  then have "tail_step col i m = m" by (simp only: tail_step_eq if_False)
  then show ?thesis using m by simp
qed

lemma draw_tail_inv:
  assumes m: "grid_ok m" and col: "0 \<le> col" "col < width m"
  shows "grid_ok (draw_tail col m) \<and> same_columns m (draw_tail col m)"
  unfolding draw_tail_def
proof (rule for_loop_inv [where P = "\<lambda>s. grid_ok s \<and> same_columns m s"])
  show "grid_ok m \<and> same_columns m m" using m by (simp add: same_columns_refl)
next
  fix i :: int and s
  assume i: "1 \<le> i" and s: "grid_ok s \<and> same_columns m s"
  then have "col < width s" using col by (simp add: same_columns_def same_dims_def)
  then have "grid_ok (tail_step col i s)" using s col i by (simp add: tail_step_grid_ok)
  moreover have "same_columns m (tail_step col i s)"
    using s tail_step_same_columns [of s col i] by (blast intro: same_columns_trans)
  ultimately show "grid_ok (tail_step col i s) \<and> same_columns m (tail_step col i s)" ..
qed

subsection \<open>One column\<close>

lemma advance_drop_grid_ok:
  assumes "grid_ok m" shows "grid_ok (advance_drop col m)"
  by (rule grid_ok_same_grid [OF assms])
    (simp_all add: advance_drop_def same_grid_def same_dims_def)

lemma reset_drop_grid_ok:
  assumes "grid_ok m" shows "grid_ok (reset_drop col m)"
  by (rule grid_ok_same_grid [OF assms])
    (simp_all add: reset_drop_def same_grid_def same_dims_def Let_def split: prod.splits)

lemma reset_drop_same_dims: "same_dims m (reset_drop col m)"
  by (simp add: reset_drop_def same_dims_def Let_def split: prod.splits)

lemma move_column_grid_ok:
  assumes m: "grid_ok m" and col: "0 \<le> col" "col < width m"
  shows "grid_ok (move_column col m) \<and> same_dims m (move_column col m)"
proof -
  let ?m2 = "advance_drop col m"
  let ?m3 = "draw_head col ?m2"
  let ?m4 = "draw_tail col ?m3"
  have m2: "grid_ok ?m2" "width ?m2 = width m" "height ?m2 = height m"
    using m by (simp_all add: advance_drop_grid_ok) (simp_all add: advance_drop_def)
  have m3: "grid_ok ?m3" "same_columns ?m2 ?m3"
    using m2 col by (simp_all add: draw_head_grid_ok draw_head_same_columns)
  then have w3: "col < width ?m3" using col m2 by (simp add: same_columns_def same_dims_def)
  have m4: "grid_ok ?m4" "same_columns ?m3 ?m4"
    using draw_tail_inv [OF m3(1) col(1) w3] by simp_all
  have "grid_ok (reset_drop col ?m4)" using m4 by (simp add: reset_drop_grid_ok)
  moreover have "same_dims m (reset_drop col ?m4)"
    using m2 m3 m4 reset_drop_same_dims [of ?m4 col]
    by (simp add: same_columns_def same_dims_def)
  ultimately show ?thesis by (simp add: move_column_def)
qed

lemma update_column_grid_ok:
  assumes m: "grid_ok m" and col: "0 \<le> col" "col < width m"
  shows "grid_ok (update_column col m) \<and> same_dims m (update_column col m)"
proof -
  let ?m1 = "m\<lparr>counters := set1 (counters m) col (at1 (counters m) col + 1)\<rparr>"
  have m1: "grid_ok ?m1"
    by (rule grid_ok_same_grid [OF m]) (simp_all add: same_grid_def same_dims_def)
  have d1: "same_dims m ?m1" by (simp add: same_dims_def)
  have "grid_ok (move_column col ?m1) \<and> same_dims ?m1 (move_column col ?m1)"
    using m1 col by (intro move_column_grid_ok) simp_all
  then show ?thesis using m1 d1 by (auto simp: update_column_def Let_def same_dims_def)
qed

subsection \<open>The state of one column\<close>

lemma shape_cols_shape: "shape m \<Longrightarrow> cols_shape m"
  by (simp add: shape_def cols_shape_def)

lemma same_columns_cols_shape: "same_columns m m' \<Longrightarrow> cols_shape m \<Longrightarrow> cols_shape m'"
  by (simp add: same_columns_def same_dims_def cols_shape_def)

lemma cols_shape_in:
  assumes "cols_shape m" "0 \<le> col" "col < width m"
  shows "col < int (length (drops m))" "col < int (length (speeds m))"
    "col < int (length (lengths m))" "col < int (length (counters m))"
  using assms by (simp_all add: cols_shape_def)

lemma draw_tail_same_columns: "same_columns m (draw_tail col m)"
  unfolding draw_tail_def
proof (rule for_loop_inv [where P = "same_columns m"])
  show "same_columns m m" by (rule same_columns_refl)
next
  fix i :: int and s
  assume "same_columns m s"
  then show "same_columns m (tail_step col i s)"
    using tail_step_same_columns [of s col i] by (blast intro: same_columns_trans)
qed

lemma reset_drop_column:
  assumes m: "cols_shape m" and col: "0 \<le> col" "col < width m"
  shows "column (reset_drop col m) col =
     (if at1 (drops m) col - at1 (lengths m) col > height m
      then (- fst (spawn_dist (rng m)) - at1 (lengths m) col,
            fst (speed_dist (snd (spawn_dist (rng m)))),
            fst (length_dist (snd (speed_dist (snd (spawn_dist (rng m)))))),
            at1 (counters m) col)
      else column m col)"
  using cols_shape_in [OF m col] col
  by (simp add: reset_drop_def column_def Let_def at1_set1 split: prod.splits)

lemma reset_drop_other:
  assumes m: "cols_shape m" and col: "0 \<le> col" "col < width m" and c: "0 \<le> c" "c \<noteq> col"
  shows "column (reset_drop col m) c = column m c"
  using cols_shape_in [OF m col] col c
  by (simp add: reset_drop_def column_def Let_def at1_set1 split: prod.splits)

lemma reset_drop_cols_shape: "cols_shape m \<Longrightarrow> cols_shape (reset_drop col m)"
  by (simp add: reset_drop_def cols_shape_def Let_def split: prod.splits)

lemma move_column_column:
  assumes m: "cols_shape m" and col: "0 \<le> col" "col < width m"
  shows "\<exists>g. column (move_column col m) col =
     (if at1 (drops m) col + 1 - at1 (lengths m) col > height m
      then (- fst (spawn_dist g) - at1 (lengths m) col,
            fst (speed_dist (snd (spawn_dist g))),
            fst (length_dist (snd (speed_dist (snd (spawn_dist g))))), 0)
      else (at1 (drops m) col + 1, at1 (speeds m) col, at1 (lengths m) col, 0))"
proof -
  let ?m2 = "advance_drop col m"
  let ?m4 = "draw_tail col (draw_head col ?m2)"
  have sc: "same_columns ?m2 ?m4"
    using draw_head_same_columns draw_tail_same_columns by (rule same_columns_trans)
  have cs2: "cols_shape ?m2" using m by (simp add: advance_drop_def cols_shape_def)
  have c2: "column ?m2 col = (at1 (drops m) col + 1, at1 (speeds m) col, at1 (lengths m) col, 0)"
    using cols_shape_in [OF m col] col by (simp add: advance_drop_def column_def at1_set1)
  have cs4: "cols_shape ?m4" using sc cs2 by (rule same_columns_cols_shape)
  have c4: "column ?m4 col = column ?m2 col" using sc by (rule same_columns_column)
  have w4: "col < width ?m4" "height ?m4 = height m"
    using sc col by (simp_all add: same_columns_def same_dims_def advance_drop_def)
  have "column (move_column col m) col =
     (if at1 (drops m) col + 1 - at1 (lengths m) col > height m
      then (- fst (spawn_dist (rng ?m4)) - at1 (lengths m) col,
            fst (speed_dist (snd (spawn_dist (rng ?m4)))),
            fst (length_dist (snd (speed_dist (snd (spawn_dist (rng ?m4)))))), 0)
      else (at1 (drops m) col + 1, at1 (speeds m) col, at1 (lengths m) col, 0))"
    using c4 c2 w4(2) unfolding move_column_def reset_drop_column [OF cs4 col(1) w4(1)]
    by (simp add: column_def)
  then show ?thesis by (rule exI [of _ "rng ?m4"])
qed

lemma move_column_other:
  assumes m: "cols_shape m" and col: "0 \<le> col" "col < width m" and c: "0 \<le> c" "c \<noteq> col"
  shows "column (move_column col m) c = column m c"
proof -
  let ?m2 = "advance_drop col m"
  let ?m4 = "draw_tail col (draw_head col ?m2)"
  have sc: "same_columns ?m2 ?m4"
    using draw_head_same_columns draw_tail_same_columns by (rule same_columns_trans)
  have cs2: "cols_shape ?m2" using m by (simp add: advance_drop_def cols_shape_def)
  have c2: "column ?m2 c = column m c"
    using cols_shape_in [OF m col] col c by (simp add: advance_drop_def column_def at1_set1)
  have cs4: "cols_shape ?m4" using sc cs2 by (rule same_columns_cols_shape)
  have c4: "column ?m4 c = column ?m2 c" using sc by (rule same_columns_column)
  have w4: "col < width ?m4"
    using sc col by (simp_all add: same_columns_def same_dims_def advance_drop_def)
  show ?thesis
    unfolding move_column_def reset_drop_other [OF cs4 col(1) w4 c] c4 c2 ..
qed

lemma move_column_cols_shape:
  assumes "cols_shape m" shows "cols_shape (move_column col m)"
proof -
  have "cols_shape (advance_drop col m)" using assms by (simp add: advance_drop_def cols_shape_def)
  then have "cols_shape (draw_head col (advance_drop col m))"
    using draw_head_same_columns by (rule same_columns_cols_shape [rotated])
  then have "cols_shape (draw_tail col (draw_head col (advance_drop col m)))"
    using draw_tail_same_columns by (rule same_columns_cols_shape [rotated])
  then show ?thesis unfolding move_column_def by (rule reset_drop_cols_shape)
qed

lemma move_column_same_dims: "same_dims m (move_column col m)"
proof -
  have "same_columns (advance_drop col m) (draw_tail col (draw_head col (advance_drop col m)))"
    using draw_head_same_columns draw_tail_same_columns by (rule same_columns_trans)
  then show ?thesis
    using reset_drop_same_dims [of "draw_tail col (draw_head col (advance_drop col m))" col]
    by (simp add: move_column_def same_columns_def same_dims_def advance_drop_def)
qed

lemma update_column_column:
  assumes m: "cols_shape m" and col: "0 \<le> col" "col < width m"
  shows "\<exists>g. column (update_column col m) col = next_column (height m) g (column m col)"
proof -
  let ?m1 = "m\<lparr>counters := set1 (counters m) col (at1 (counters m) col + 1)\<rparr>"
  have cs1: "cols_shape ?m1" using m by (simp add: cols_shape_def)
  have c1: "at1 (counters ?m1) col = at1 (counters m) col + 1"
    using cols_shape_in [OF m col] col by (simp add: at1_set1)
  have w1: "col < width ?m1" using col by simp
  show ?thesis
  proof (cases "at1 (counters m) col + 1 \<ge> at1 (speeds m) col")
    case True
    then have eq: "update_column col m = move_column col ?m1"
      using c1 by (simp add: update_column_def Let_def)
    have "\<exists>g. column (move_column col ?m1) col =
       (if at1 (drops m) col + 1 - at1 (lengths m) col > height m
        then (- fst (spawn_dist g) - at1 (lengths m) col,
              fst (speed_dist (snd (spawn_dist g))),
              fst (length_dist (snd (speed_dist (snd (spawn_dist g))))), 0)
        else (at1 (drops m) col + 1, at1 (speeds m) col, at1 (lengths m) col, 0))"
      using move_column_column [OF cs1 col(1) w1] by (simp cong: if_cong)
    then obtain g where "column (move_column col ?m1) col =
       (if at1 (drops m) col + 1 - at1 (lengths m) col > height m
        then (- fst (spawn_dist g) - at1 (lengths m) col,
              fst (speed_dist (snd (spawn_dist g))),
              fst (length_dist (snd (speed_dist (snd (spawn_dist g))))), 0)
        else (at1 (drops m) col + 1, at1 (speeds m) col, at1 (lengths m) col, 0))"
      by blast
    then have "column (update_column col m) col = next_column (height m) g (column m col)"
      using True by (simp add: eq next_column_def column_def)
    then show ?thesis by (rule exI [of _ g])
  next
    case False
    then have eq: "update_column col m = ?m1"
      using c1 by (simp add: update_column_def Let_def)
    have "column (update_column col m) col = next_column (height m) g (column m col)" for g
      using False c1 unfolding eq by (simp add: next_column_def column_def)
    then show ?thesis by blast
  qed
qed

lemma update_column_other:
  assumes m: "cols_shape m" and col: "0 \<le> col" "col < width m" and c: "0 \<le> c" "c \<noteq> col"
  shows "column (update_column col m) c = column m c"
proof -
  let ?m1 = "m\<lparr>counters := set1 (counters m) col (at1 (counters m) col + 1)\<rparr>"
  have cs1: "cols_shape ?m1" using m by (simp add: cols_shape_def)
  have c1: "column ?m1 c = column m c"
    using cols_shape_in [OF m col] col c by (simp add: column_def at1_set1)
  have w1: "col < width ?m1" using col by simp
  have "column (move_column col ?m1) c = column ?m1 c"
    using cs1 col(1) w1 c by (rule move_column_other)
  then show ?thesis using c1 by (simp add: update_column_def Let_def)
qed

lemma update_column_cols_shape:
  assumes "cols_shape m"
  shows "cols_shape (update_column col m) \<and> same_dims m (update_column col m)"
proof -
  let ?m1 = "m\<lparr>counters := set1 (counters m) col (at1 (counters m) col + 1)\<rparr>"
  have cs1: "cols_shape ?m1" using assms by (simp add: cols_shape_def)
  have "cols_shape (move_column col ?m1)" using cs1 by (rule move_column_cols_shape)
  moreover have "same_dims m (move_column col ?m1)"
    using move_column_same_dims [of ?m1 col] by (simp add: same_dims_def)
  ultimately show ?thesis using cs1 by (simp add: update_column_def Let_def same_dims_def)
qed

subsection \<open>A loop over the columns, seen from one column\<close>

lemma for_loop_at:
  assumes inv: "\<And>i s. 0 \<le> i \<Longrightarrow> i < n \<Longrightarrow> I s \<Longrightarrow> I (body i s)"
    and other: "\<And>i s. 0 \<le> i \<Longrightarrow> i < n \<Longrightarrow> i \<noteq> c \<Longrightarrow> I s \<Longrightarrow> f (body i s) = f s"
    and s: "I s" and c: "0 \<le> c" "c < n"
  shows "\<exists>s'. I s' \<and> f s' = f s \<and> I (for_loop 0 n body s) \<and> f (for_loop 0 n body s) = f (body c s')"
proof -
  let ?s1 = "for_loop 0 c body s"
  have p1: "I ?s1 \<and> f ?s1 = f s"
  proof (rule for_loop_inv [where P = "\<lambda>x. I x \<and> f x = f s"])
    show "I s \<and> f s = f s" using s by simp
  next
    fix i x assume "0 \<le> i" "i < c" "I x \<and> f x = f s"
    then show "I (body i x) \<and> f (body i x) = f s"
      using inv [of i x] other [of i x] c by simp
  qed
  have i2: "I (body c ?s1)" using p1 c inv by simp
  have split: "for_loop 0 n body s = for_loop (c + 1) n body (body c ?s1)"
    using for_loop_split [of 0 c n body s] c by (simp add: for_loop_first)
  have p2: "I (for_loop (c + 1) n body (body c ?s1))
      \<and> f (for_loop (c + 1) n body (body c ?s1)) = f (body c ?s1)"
  proof (rule for_loop_inv [where P = "\<lambda>x. I x \<and> f x = f (body c ?s1)"])
    show "I (body c ?s1) \<and> f (body c ?s1) = f (body c ?s1)" using i2 by simp
  next
    fix i x assume "c + 1 \<le> i" "i < n" "I x \<and> f x = f (body c ?s1)"
    then show "I (body i x) \<and> f (body i x) = f (body c ?s1)"
      using inv [of i x] other [of i x] c by simp
  qed
  show ?thesis using p1 p2 unfolding split by blast
qed

subsection \<open>The fade pass, cell by cell\<close>

lemma fade_cell_at:
  assumes m: "grid_ok m" and rc: "0 \<le> row" "row < height m" "0 \<le> col" "col < width m"
    and r: "0 \<le> r" "0 \<le> c"
  shows "cell (fade_cell row col m) r c
    = (if r = row \<and> c = col then faded (cell m r c) else cell m r c)"
proof -
  let ?b = "at2 (brightness m) row col"
  let ?ch = "at2 (screen m) row col"
  have sh: "shape m" using m by (rule grid_ok_shapeD)
  note gs = shape_gridD(1) [OF sh] and gb = shape_gridD(2) [OF sh]
  have old: "cell_ok ?ch ?b" using m rc by (rule grid_ok_cellD)
  have rd: "at2 (set2 (brightness m) row col v) row col = v" for v
    using at2_set2 [OF gb rc rc(1) rc(3)] by simp
  have len: "nat row < length (brightness m)" using gb rc by (simp add: grid_shape_def)
  consider "?b \<le> 0" | "0 < ?b" "?b - 3 \<le> 0" | "0 < ?b - 3" by linarith
  then show ?thesis
  proof cases
    case 1
    then have "fade_cell row col m = m" by (simp add: fade_cell_def)
    then show ?thesis using 1 old by (auto simp: cell_def faded_def cell_ok_def)
  next
    case 2
    then have eq: "fade_cell row col m =
        m\<lparr>brightness := set2 (set2 (brightness m) row col (?b - 3)) row col 0,
          screen := set2 (screen m) row col CHR '' ''\<rparr>"
      by (simp add: fade_cell_def Let_def rd)
    have two: "set2 (set2 (brightness m) row col (?b - 3)) row col 0 = set2 (brightness m) row col 0"
      using len by (simp add: set2_def)
    show ?thesis
      unfolding eq two using 2
      by (auto simp: cell_def faded_def at2_set2 [OF gs rc r] at2_set2 [OF gb rc r])
  next
    case 3
    then have eq: "fade_cell row col m = m\<lparr>brightness := set2 (brightness m) row col (?b - 3)\<rparr>"
      by (simp add: fade_cell_def Let_def rd)
    show ?thesis
      unfolding eq using 3
      by (auto simp: cell_def faded_def at2_set2 [OF gb rc r])
  qed
qed

lemma fade_cell_dims: "grid_ok s \<and> same_dims m s \<Longrightarrow> 0 \<le> row \<Longrightarrow> row < height m \<Longrightarrow>
    0 \<le> col \<Longrightarrow> col < width m \<Longrightarrow>
    grid_ok (fade_cell row col s) \<and> same_dims m (fade_cell row col s)"
  using fade_cell_same_columns [of s row col]
  by (simp add: fade_cell_grid_ok same_dims_def same_columns_def)

lemma fade_row_dims:
  assumes "grid_ok s \<and> same_dims m s" and "0 \<le> row" "row < height m"
  shows "grid_ok (for_loop 0 (width m) (\<lambda>col. fade_cell row col) s)
    \<and> same_dims m (for_loop 0 (width m) (\<lambda>col. fade_cell row col) s)"
  by (rule for_loop_inv [where P = "\<lambda>s. grid_ok s \<and> same_dims m s", OF assms(1)])
    (rule fade_cell_dims [OF _ assms(2,3)])

lemma fade_row_at:
  assumes s: "grid_ok s \<and> same_dims m s" and row: "0 \<le> row" "row < height m"
    and rc: "0 \<le> r" "0 \<le> c" "c < width m"
  shows "cell (for_loop 0 (width m) (\<lambda>col. fade_cell row col) s) r c
    = (if r = row then faded (cell s r c) else cell s r c)"
proof -
  let ?I = "\<lambda>s. grid_ok s \<and> same_dims m s"
  have at: "cell (fade_cell row col x) r c
      = (if r = row \<and> c = col then faded (cell x r c) else cell x r c)"
    if "?I x" "0 \<le> col" "col < width m" for x col
    using that row rc by (intro fade_cell_at) (simp_all add: same_dims_def)
  have "\<exists>s'. ?I s' \<and> cell s' r c = cell s r c
      \<and> ?I (for_loop 0 (width m) (\<lambda>col. fade_cell row col) s)
      \<and> cell (for_loop 0 (width m) (\<lambda>col. fade_cell row col) s) r c
          = cell (fade_cell row c s') r c"
  proof (rule for_loop_at [where I = ?I and f = "\<lambda>s. cell s r c"])
    show "?I s" by (rule s)
  next
    fix i x assume "0 \<le> i" "i < width m" "?I x"
    then show "?I (fade_cell row i x)" using row by (intro fade_cell_dims)
  next
    fix i x assume "0 \<le> i" "i < width m" "i \<noteq> c" "?I x"
    then show "cell (fade_cell row i x) r c = cell x r c" using at [of x i] by simp
  qed (use rc in simp_all)
  then obtain s' where s': "?I s'" "cell s' r c = cell s r c"
    and fin: "cell (for_loop 0 (width m) (\<lambda>col. fade_cell row col) s) r c
          = cell (fade_cell row c s') r c"
    by blast
  show ?thesis using at [OF s'(1) rc(2,3)] s'(2) fin by auto
qed

lemma fade_pass_at:
  assumes m: "grid_ok m" and rc: "0 \<le> r" "r < height m" "0 \<le> c" "c < width m"
  shows "cell (fade_pass m) r c = faded (cell m r c)"
proof -
  let ?I = "\<lambda>s. grid_ok s \<and> same_dims m s"
  let ?body = "\<lambda>row. for_loop 0 (width m) (\<lambda>col. fade_cell row col)"
  have "\<exists>s'. ?I s' \<and> cell s' r c = cell m r c \<and> ?I (for_loop 0 (height m) ?body m)
      \<and> cell (for_loop 0 (height m) ?body m) r c = cell (?body r s') r c"
  proof (rule for_loop_at [where I = ?I and f = "\<lambda>s. cell s r c"])
    show "?I m" using m by (simp add: same_dims_def)
  next
    fix i x assume "0 \<le> i" "i < height m" "?I x"
    then show "?I (?body i x)" by (intro fade_row_dims)
  next
    fix i x assume "0 \<le> i" "i < height m" "i \<noteq> r" "?I x"
    then show "cell (?body i x) r c = cell x r c"
      using fade_row_at [of x m i r c] rc by simp
  qed (use rc in simp_all)
  then obtain s' where s': "?I s'" "cell s' r c = cell m r c"
    and fin: "cell (fade_pass m) r c = cell (?body r s') r c"
    by (auto simp: fade_pass_def)
  show ?thesis using fade_row_at [OF s'(1) rc(1,2) rc(1) rc(3,4)] s'(2) fin by simp
qed

subsection \<open>The advance pass and the whole tick\<close>

lemma advance_pass_grid_ok:
  assumes "grid_ok m"
  shows "grid_ok (advance_pass m) \<and> same_dims m (advance_pass m)"
  unfolding advance_pass_def
proof (rule for_loop_inv [where P = "\<lambda>s. grid_ok s \<and> same_dims m s"])
  show "grid_ok m \<and> same_dims m m" using assms by (simp add: same_dims_def)
next
  fix i s assume i: "0 \<le> i" "i < width m" and s: "grid_ok s \<and> same_dims m s"
  then have "i < width s" by (simp add: same_dims_def)
  then have "grid_ok (update_column i s) \<and> same_dims s (update_column i s)"
    using s i by (simp add: update_column_grid_ok)
  then show "grid_ok (update_column i s) \<and> same_dims m (update_column i s)"
    using s by (simp add: same_dims_def)
qed

lemma advance_pass_column:
  assumes m: "cols_shape m" and c: "0 \<le> c" "c < width m"
  shows "\<exists>g. column (advance_pass m) c = next_column (height m) g (column m c)"
proof -
  let ?I = "\<lambda>s. cols_shape s \<and> same_dims m s"
  have "\<exists>s'. ?I s' \<and> column s' c = column m c \<and> ?I (for_loop 0 (width m) update_column m)
      \<and> column (for_loop 0 (width m) update_column m) c = column (update_column c s') c"
  proof (rule for_loop_at [where I = ?I and f = "\<lambda>s. column s c"])
    show "?I m" using m by (simp add: same_dims_def)
  next
    fix i s assume "?I s"
    then show "?I (update_column i s)"
      using update_column_cols_shape [of s i] by (simp add: same_dims_def)
  next
    fix i s assume "0 \<le> i" "i < width m" "i \<noteq> c" "?I s"
    then show "column (update_column i s) c = column s c"
      using c by (intro update_column_other) (simp_all add: same_dims_def)
  qed (use c in simp_all)
  then obtain s' where s': "cols_shape s'" "same_dims m s'" "column s' c = column m c"
    and fin: "column (advance_pass m) c = column (update_column c s') c"
    by (auto simp: advance_pass_def)
  have "c < width s'" using s' c by (simp add: same_dims_def)
  then obtain g where "column (update_column c s') c = next_column (height s') g (column s' c)"
    using update_column_column [OF s'(1) c(1)] by blast
  then have "column (advance_pass m) c = next_column (height m) g (column m c)"
    using fin s' by (simp add: same_dims_def)
  then show ?thesis by (rule exI [of _ g])
qed

lemma column_ok_next:
  assumes "column_ok h d s l k" and "0 \<le> h"
    and "next_column h g (d, s, l, k) = (d', s', l', k')"
  shows "column_ok h d' s' l' k'"
proof -
  note r = spawn_dist_range [of g] speed_dist_range [of "snd (spawn_dist g)"]
    length_dist_range [of "snd (speed_dist (snd (spawn_dist g)))"]
  show ?thesis
    using assms r by (auto simp: column_ok_def next_column_def split: if_splits)
qed

lemma fade_pass_same_columns: "same_columns m (fade_pass m)"
  unfolding fade_pass_def
proof (rule for_loop_inv [where P = "same_columns m"])
  show "same_columns m m" by (rule same_columns_refl)
next
  fix row s assume s: "same_columns m s"
  show "same_columns m (for_loop 0 (width m) (\<lambda>col. fade_cell row col) s)"
  proof (rule for_loop_inv [where P = "same_columns m", OF s])
    fix col x assume "same_columns m x"
    then show "same_columns m (fade_cell row col x)"
      using fade_cell_same_columns [of x row col] by (blast intro: same_columns_trans)
  qed
qed

lemma update_column_state:
  assumes m: "cols_shape m" and c: "0 \<le> c" "c < width m"
  shows "\<exists>g. column (update m) c = next_column (height m) g (column m c)"
proof -
  have sc: "same_columns m (fade_pass m)" by (rule fade_pass_same_columns)
  then have "cols_shape (fade_pass m)" using m by (rule same_columns_cols_shape)
  moreover have "c < width (fade_pass m)" using sc c by (simp add: same_columns_def same_dims_def)
  ultimately obtain g where
    "column (advance_pass (fade_pass m)) c = next_column (height (fade_pass m)) g (column (fade_pass m) c)"
    using advance_pass_column [of "fade_pass m" c] c by blast
  then have "column (update m) c = next_column (height m) g (column m c)"
    using sc by (simp add: update_def same_columns_column) (simp add: same_columns_def same_dims_def)
  then show ?thesis by (rule exI [of _ g])
qed

lemma update_same_dims: "grid_ok m \<Longrightarrow> same_dims m (update m)"
  using fade_pass_inv [of m] advance_pass_grid_ok [of "fade_pass m"]
  by (simp add: update_def fade_inv_def same_columns_def same_dims_def)

lemma update_grid_ok: "grid_ok m \<Longrightarrow> grid_ok (update m)"
  using fade_pass_inv [of m] advance_pass_grid_ok [of "fade_pass m"]
  by (simp add: update_def fade_inv_def)

lemma advance_pass_ok:
  assumes "ok m" shows "ok (advance_pass m)"
proof -
  have g: "grid_ok m" and cs: "cols_shape m" and h: "0 \<le> height m"
    using assms by (simp_all add: ok_def grid_ok_def shape_cols_shape) (simp add: shape_def)
  have g': "grid_ok (advance_pass m)" and d: "same_dims m (advance_pass m)"
    using advance_pass_grid_ok [OF g] by simp_all
  have "columns_ok (advance_pass m)"
    unfolding columns_ok_def
  proof
    fix c assume "c \<in> {0..<width (advance_pass m)}"
    then have c: "0 \<le> c" "c < width m" using d by (simp_all add: same_dims_def)
    obtain g where "column (advance_pass m) c = next_column (height m) g (column m c)"
      using advance_pass_column [OF cs c] by blast
    then have "next_column (height m) g
        (at1 (drops m) c, at1 (speeds m) c, at1 (lengths m) c, at1 (counters m) c)
      = (at1 (drops (advance_pass m)) c, at1 (speeds (advance_pass m)) c,
         at1 (lengths (advance_pass m)) c, at1 (counters (advance_pass m)) c)"
      by (simp add: column_def)
    then have "column_ok (height m) (at1 (drops (advance_pass m)) c)
        (at1 (speeds (advance_pass m)) c) (at1 (lengths (advance_pass m)) c)
        (at1 (counters (advance_pass m)) c)"
      by (rule column_ok_next [OF ok_columnD [OF assms c] h])
    then show "column_ok (height (advance_pass m)) (at1 (drops (advance_pass m)) c)
        (at1 (speeds (advance_pass m)) c) (at1 (lengths (advance_pass m)) c)
        (at1 (counters (advance_pass m)) c)"
      using d by (simp add: same_dims_def)
  qed
  then show ?thesis using g' by (simp add: ok_def)
qed

lemma update_ok: "ok m \<Longrightarrow> ok (update m)"
  unfolding update_def by (intro advance_pass_ok fade_pass_ok)

subsection \<open>Construction\<close>

lemma resize_Nil: "resize n x [] = replicate (nat n) x"
  by (simp add: resize_def)

lemma at2_replicate:
  "0 \<le> r \<Longrightarrow> r < h \<Longrightarrow> 0 \<le> c \<Longrightarrow> c < w \<Longrightarrow>
     at2 (replicate (nat h) (replicate (nat w) x)) r c = x"
  by (simp add: at2_def)

lemma init_column_eq:
  "init_column spawn_first i m =
     m\<lparr>drops := set1 (drops m) i
          (if spawn_first
           then - fst (spawn_dist (rng m)) - fst (length_dist (snd (spawn_dist (rng m))))
           else - fst (spawn_dist (snd (length_dist (rng m)))) - fst (length_dist (rng m))),
       speeds := set1 (speeds m) i
          (fst (speed_dist (if spawn_first then snd (length_dist (snd (spawn_dist (rng m))))
                            else snd (spawn_dist (snd (length_dist (rng m))))))),
       lengths := set1 (lengths m) i
          (fst (length_dist (snd (speed_dist
             (if spawn_first then snd (length_dist (snd (spawn_dist (rng m))))
              else snd (spawn_dist (snd (length_dist (rng m))))))))),
       counters := set1 (counters m) i 0,
       rng := snd (length_dist (snd (speed_dist
             (if spawn_first then snd (length_dist (snd (spawn_dist (rng m))))
              else snd (spawn_dist (snd (length_dist (rng m))))))))\<rparr>"
  by (simp add: init_column_def initial_head_def Let_def split: prod.splits)

lemma init_column_grid_ok:
  assumes "grid_ok m" shows "grid_ok (init_column spawn_first i m)"
  by (rule grid_ok_same_grid [OF assms]) (simp_all add: init_column_eq same_grid_def same_dims_def)

lemma init_column_cols_shape:
  "cols_shape m \<Longrightarrow> cols_shape (init_column spawn_first i m)"
  by (simp add: init_column_eq cols_shape_def)

lemma init_column_same_dims: "same_dims m (init_column spawn_first i m)"
  by (simp add: init_column_eq same_dims_def)

lemma init_column_other:
  assumes m: "cols_shape m" and i: "0 \<le> i" "i < width m" and c: "0 \<le> c" "c \<noteq> i"
  shows "column (init_column spawn_first i m) c = column m c"
  using cols_shape_in [OF m i] i c by (simp add: init_column_eq column_def at1_set1)

lemma init_column_column:
  assumes m: "cols_shape m" and i: "0 \<le> i" "i < width m" and h: "0 \<le> height m"
  shows "column_ok (height m) (at1 (drops (init_column spawn_first i m)) i)
     (at1 (speeds (init_column spawn_first i m)) i) (at1 (lengths (init_column spawn_first i m)) i)
     (at1 (counters (init_column spawn_first i m)) i)"
proof -
  let ?g = "if spawn_first then snd (length_dist (snd (spawn_dist (rng m))))
            else snd (spawn_dist (snd (length_dist (rng m))))"
  let ?d = "if spawn_first
           then - fst (spawn_dist (rng m)) - fst (length_dist (snd (spawn_dist (rng m))))
           else - fst (spawn_dist (snd (length_dist (rng m)))) - fst (length_dist (rng m))"
  have two: "- 60 \<le> - fst (spawn_dist g) - fst (length_dist g')
      \<and> - fst (spawn_dist g) - fst (length_dist g') \<le> - 7" for g g'
    using spawn_dist_range [of g] length_dist_range [of g'] by linarith
  have d: "- 60 \<le> ?d \<and> ?d \<le> - 7"
    using two [of "rng m" "snd (spawn_dist (rng m))"] two [of "snd (length_dist (rng m))" "rng m"]
    by (cases spawn_first) simp_all
  have eq: "at1 (drops (init_column spawn_first i m)) i = ?d"
    "at1 (speeds (init_column spawn_first i m)) i = fst (speed_dist ?g)"
    "at1 (lengths (init_column spawn_first i m)) i = fst (length_dist (snd (speed_dist ?g)))"
    "at1 (counters (init_column spawn_first i m)) i = 0"
    using cols_shape_in [OF m i] i by (simp_all add: init_column_eq at1_set1)
  show ?thesis
    unfolding eq column_ok_def
    using d h speed_dist_range [of ?g] length_dist_range [of "snd (speed_dist ?g)"]
    by linarith
qed

lemma initializeMatrix_ok:
  assumes w: "0 \<le> width m" and h: "0 \<le> height m"
    and empty: "screen m = []" "brightness m = []" "drops m = []" "speeds m = []"
      "lengths m = []" "counters m = []"
  shows "ok (initializeMatrix spawn_first m)"
proof -
  let ?m1 = "m\<lparr>screen := resize (height m) (replicate (nat (width m)) CHR '' '') (screen m),
                 brightness := resize (height m) (replicate (nat (width m)) 0) (brightness m),
                 drops := resize (width m) 0 (drops m),
                 speeds := resize (width m) 0 (speeds m),
                 lengths := resize (width m) 0 (lengths m),
                 counters := resize (width m) 0 (counters m)\<rparr>"
  let ?fin = "for_loop 0 (width m) (init_column spawn_first) ?m1"
  have fin: "initializeMatrix spawn_first m = ?fin"
    by (simp add: initializeMatrix_def Let_def)
  have sh1: "shape ?m1"
    using w h by (simp add: shape_def grid_shape_def empty resize_Nil)
  have "cells_ok ?m1"
    by (simp add: cells_ok_def empty resize_Nil at2_replicate cell_ok_def)
  then have g1: "grid_ok ?m1" using sh1 by (simp add: grid_ok_def)
  have cs1: "cols_shape ?m1" using sh1 by (rule shape_cols_shape)
  let ?I = "\<lambda>s. cols_shape s \<and> same_dims ?m1 s"
  have gfin: "grid_ok ?fin \<and> same_dims ?m1 ?fin"
  proof (rule for_loop_inv [where P = "\<lambda>s. grid_ok s \<and> same_dims ?m1 s"])
    show "grid_ok ?m1 \<and> same_dims ?m1 ?m1" using g1 by (simp add: same_dims_def)
  next
    fix i s assume "grid_ok s \<and> same_dims ?m1 s"
    then show "grid_ok (init_column spawn_first i s) \<and> same_dims ?m1 (init_column spawn_first i s)"
      using init_column_same_dims [of s spawn_first i]
      by (simp add: init_column_grid_ok same_dims_def)
  qed
  have "columns_ok ?fin"
    unfolding columns_ok_def
  proof
    fix c assume "c \<in> {0..<width ?fin}"
    then have c: "0 \<le> c" "c < width m" using gfin by (simp_all add: same_dims_def)
    have "\<exists>s'. ?I s' \<and> column s' c = column ?m1 c \<and> ?I ?fin
        \<and> column ?fin c = column (init_column spawn_first c s') c"
    proof (rule for_loop_at [where I = ?I and f = "\<lambda>s. column s c"])
      show "?I ?m1" using cs1 by (simp add: same_dims_def)
    next
      fix i s assume "?I s"
      then show "?I (init_column spawn_first i s)"
        using init_column_same_dims [of s spawn_first i]
        by (simp add: init_column_cols_shape same_dims_def)
    next
      fix i s assume "0 \<le> i" "i < width m" "i \<noteq> c" "?I s"
      then show "column (init_column spawn_first i s) c = column s c"
        using c by (intro init_column_other) (simp_all add: same_dims_def)
    qed (use c in simp_all)
    then obtain s' where s': "cols_shape s'" "same_dims ?m1 s'"
      and eq: "column ?fin c = column (init_column spawn_first c s') c"
      by blast
    have "column_ok (height s') (at1 (drops (init_column spawn_first c s')) c)
       (at1 (speeds (init_column spawn_first c s')) c) (at1 (lengths (init_column spawn_first c s')) c)
       (at1 (counters (init_column spawn_first c s')) c)"
      using s' c h by (intro init_column_column) (simp_all add: same_dims_def)
    then show "column_ok (height ?fin) (at1 (drops ?fin) c) (at1 (speeds ?fin) c)
        (at1 (lengths ?fin) c) (at1 (counters ?fin) c)"
      using eq s'(2) gfin by (simp add: column_def same_dims_def)
  qed
  then show ?thesis using gfin by (simp add: fin ok_def)
qed

lemma Matrix_dims:
  "width (Matrix spawn_first w seed) = uint (ws_col w)"
  "height (Matrix spawn_first w seed) = uint (ws_row w)"
proof -
  let ?m0 = "getTerminalSize w
      \<lparr>width = 0, height = 0, screen = [], brightness = [], drops = [], speeds = [],
       lengths = [], counters = [], rng = seed\<rparr>"
  let ?m1 = "?m0\<lparr>screen := resize (height ?m0) (replicate (nat (width ?m0)) CHR '' '') (screen ?m0),
                 brightness := resize (height ?m0) (replicate (nat (width ?m0)) 0) (brightness ?m0),
                 drops := resize (width ?m0) 0 (drops ?m0),
                 speeds := resize (width ?m0) 0 (speeds ?m0),
                 lengths := resize (width ?m0) 0 (lengths ?m0),
                 counters := resize (width ?m0) 0 (counters ?m0)\<rparr>"
  have "same_dims ?m1 (for_loop 0 (width ?m1) (init_column spawn_first) ?m1)"
  proof (rule for_loop_inv [where P = "same_dims ?m1"])
    show "same_dims ?m1 ?m1" by (simp add: same_dims_def)
  next
    fix i s assume "same_dims ?m1 s"
    then show "same_dims ?m1 (init_column spawn_first i s)"
      using init_column_same_dims [of s spawn_first i] by (simp add: same_dims_def)
  qed
  then show "width (Matrix spawn_first w seed) = uint (ws_col w)"
    "height (Matrix spawn_first w seed) = uint (ws_row w)"
    by (simp_all add: Matrix_def initializeMatrix_def Let_def same_dims_def getTerminalSize_def)
qed

lemma Matrix_ok: "ok (Matrix spawn_first w seed)"
  unfolding Matrix_def
  by (rule initializeMatrix_ok) (simp_all add: getTerminalSize_def)

lemma ok_ticks: "ok m \<Longrightarrow> ok (ticks n m)"
  by (induction n) (simp_all add: update_ok)

lemma ok_run: "ok (run_ticks spawn_first w seed n)"
  unfolding run_ticks_def by (rule ok_ticks) (rule Matrix_ok)

lemma ticks_same_dims: "ok m \<Longrightarrow> same_dims m (ticks n m)"
proof (induction n)
  case 0
  then show ?case by (simp add: same_dims_def)
next
  case (Suc n)
  then have "grid_ok (ticks n m)" using ok_ticks [of m n] by (simp add: ok_def)
  then have "same_dims (ticks n m) (update (ticks n m))" by (rule update_same_dims)
  then show ?case using Suc by (simp add: same_dims_def)
qed

lemma run_dims:
  "width (run_ticks spawn_first w seed n) = uint (ws_col w)"
  "height (run_ticks spawn_first w seed n) = uint (ws_row w)"
  using ticks_same_dims [OF Matrix_ok [of spawn_first w seed], of n]
  by (simp_all add: run_ticks_def same_dims_def Matrix_dims)

subsection \<open>Ticks in a row\<close>

lemma column_rests:
  assumes m: "ok m" and col: "0 \<le> col" "col < width m"
    and c: "column m col = (d, s, l, k)"
  shows "int j < s - k \<Longrightarrow> column (ticks j m) col = (d, s, l, k + int j)"
proof (induction j)
  case 0
  then show ?case using c by simp
next
  case (Suc j)
  then have before: "column (ticks j m) col = (d, s, l, k + int j)" by simp
  have okj: "ok (ticks j m)" using m by (rule ok_ticks)
  then have cs: "cols_shape (ticks j m)" by (simp add: ok_def grid_ok_def shape_cols_shape)
  have dims: "same_dims m (ticks j m)" using m by (rule ticks_same_dims)
  then have w: "col < width (ticks j m)" using col by (simp add: same_dims_def)
  obtain g where "column (update (ticks j m)) col
      = next_column (height (ticks j m)) g (column (ticks j m) col)"
    using update_column_state [OF cs col(1) w] by blast
  then show ?case using before Suc.prems by (simp add: next_column_def)
qed

subsection \<open>The sweep of a column\<close>

lemma reset_drop_rng:
  "rng (reset_drop col m) =
     (if at1 (drops m) col - at1 (lengths m) col > height m
      then snd (length_dist (snd (speed_dist (snd (spawn_dist (rng m))))))
      else rng m)"
  by (simp add: reset_drop_def Let_def split: prod.splits)

lemma tail_step_mono:
  assumes m: "grid_ok m" and col: "0 \<le> col" "col < width m"
    and rc: "0 \<le> r" "r < height m" "0 \<le> c" "c < width m"
  shows "at2 (brightness m) r c \<le> at2 (brightness (tail_step col i m)) r c"
proof (cases "at1 (drops m) col - i \<ge> 0 \<and> at1 (drops m) col - i < height m
    \<and> at2 (brightness m) (at1 (drops m) col - i) col < 10 - i")
  case True
  then have row: "0 \<le> at1 (drops m) col - i" "at1 (drops m) col - i < height m"
    and lt: "at2 (brightness m) (at1 (drops m) col - i) col < 10 - i" by simp_all
  note gb = shape_gridD(2) [OF grid_ok_shapeD [OF m]]
  have "brightness (tail_step col i m)
      = set2 (brightness m) (at1 (drops m) col - i) col (max 1 (10 - i))"
    by (simp only: tail_step_eq True if_True) simp
  then show ?thesis
    using lt by (auto simp: at2_set2 [OF gb row col rc(1) rc(3)])
next
  case False
  then have "tail_step col i m = m" by (simp only: tail_step_eq if_False)
  then show ?thesis by simp
qed

lemma draw_head_mono:
  assumes m: "grid_ok m" and col: "0 \<le> col" "col < width m"
    and rc: "0 \<le> r" "r < height m" "0 \<le> c" "c < width m"
  shows "at2 (brightness m) r c \<le> at2 (brightness (draw_head col m)) r c"
proof (cases "at1 (drops m) col \<ge> 0 \<and> at1 (drops m) col < height m")
  case True
  then have row: "0 \<le> at1 (drops m) col" "at1 (drops m) col < height m" by simp_all
  note gb = shape_gridD(2) [OF grid_ok_shapeD [OF m]]
  have le: "at2 (brightness m) r c \<le> 10"
    using grid_ok_cellD [OF m rc] by (simp add: cell_ok_def)
  have "brightness (draw_head col m) = set2 (brightness m) (at1 (drops m) col) col 10"
    by (simp only: draw_head_eq True if_True) simp
  then show ?thesis
    using le by (auto simp: at2_set2 [OF gb row col rc(1) rc(3)])
next
  case False
  then have "draw_head col m = m" by (simp only: draw_head_eq if_False)
  then show ?thesis by simp
qed

lemma draw_tail_mono:
  assumes m: "grid_ok m" and col: "0 \<le> col" "col < width m"
    and rc: "0 \<le> r" "r < height m" "0 \<le> c" "c < width m"
  shows "at2 (brightness m) r c \<le> at2 (brightness (draw_tail col m)) r c"
proof -
  let ?P = "\<lambda>s. grid_ok s \<and> same_columns m s \<and> at2 (brightness m) r c \<le> at2 (brightness s) r c"
  have "?P (for_loop 1 (at1 (lengths m) col) (tail_step col) m)"
  proof (rule for_loop_inv [where P = ?P])
    show "?P m" using m by (simp add: same_columns_refl)
  next
    fix i :: int and s
    assume i: "1 \<le> i" and s: "?P s"
    then have d: "col < width s" "r < height s" "c < width s"
      using col rc by (simp_all add: same_columns_def same_dims_def)
    have "grid_ok (tail_step col i s)" using s col d i by (simp add: tail_step_grid_ok)
    moreover have "same_columns m (tail_step col i s)"
      using s tail_step_same_columns [of s col i] by (blast intro: same_columns_trans)
    moreover have "at2 (brightness s) r c \<le> at2 (brightness (tail_step col i s)) r c"
      using s col d rc by (intro tail_step_mono) simp_all
    ultimately show "?P (tail_step col i s)" using s by simp
  qed
  then show ?thesis by (simp add: draw_tail_def)
qed

lemma for_loop_last:
  "a \<le> c \<Longrightarrow> for_loop a (c + 1) body s = body c (for_loop a c body s)"
  using for_loop_split [of a c "c + 1" body s]
  by (simp add: for_loop_first for_loop_empty)

lemma char_dist_raw:
  "nat (fst (char_dist g)) = g 0 mod 158" "snd (char_dist g) = (\<lambda>n. g (Suc n))"
proof -
  have "int (g 0) mod 158 = int (g 0 mod 158)" by (simp add: zmod_int)
  then show "nat (fst (char_dist g)) = g 0 mod 158"
    by (simp add: char_dist_def uniform_int_distribution_def length_matrix_chars)
  show "snd (char_dist g) = (\<lambda>n. g (Suc n))"
    by (simp add: char_dist_def uniform_int_distribution_def)
qed

lemma tail_step_raw:
  "tail_step col i m =
     (if rewritten m col i
      then m\<lparr>screen := set2 (screen m) (at1 (drops m) col - i) col
                   (matrix_chars ! (rng m 0 mod 158)),
             brightness := set2 (brightness m) (at1 (drops m) col - i) col (max 1 (10 - i)),
             rng := (\<lambda>n. rng m (Suc n))\<rparr>
      else m)"
  unfolding tail_step_eq rewritten_def char_dist_raw ..

lemma tail_step_at:
  assumes m: "grid_ok m" and col: "0 \<le> col" "col < width m" and r: "0 \<le> r" "0 \<le> c"
  shows "cell (tail_step col i m) r c
    = (if r = at1 (drops m) col - i \<and> c = col \<and> rewritten m col i
       then (max 1 (10 - i), matrix_chars ! (rng m 0 mod 158)) else cell m r c)"
proof (cases "rewritten m col i")
  case True
  then have row: "0 \<le> at1 (drops m) col - i" "at1 (drops m) col - i < height m"
    by (simp_all add: rewritten_def)
  note gs = shape_gridD(1) [OF grid_ok_shapeD [OF m]]
    and gb = shape_gridD(2) [OF grid_ok_shapeD [OF m]]
  show ?thesis
    using True
    by (auto simp: tail_step_raw cell_def at2_set2 [OF gs row col r] at2_set2 [OF gb row col r])
next
  case False
  then show ?thesis by (simp add: tail_step_raw)
qed

lemma tail_step_rng:
  "rng (tail_step col i m) = (if rewritten m col i then (\<lambda>n. rng m (Suc n)) else rng m)"
  by (simp add: tail_step_raw)

lemma drawn_next:
  "1 \<le> j \<Longrightarrow> drawn m col (j + 1) = drawn m col j + (if rewritten m col j then 1 else 0)"
proof -
  assume "1 \<le> j"
  then have "[1..j + 1 - 1] = [1..j - 1] @ [j]" using upto_rec2 [of 1 j] by simp
  then show ?thesis by (simp add: drawn_def)
qed

lemma swept_to_start:
  assumes "grid_ok m" shows "swept_to m col 1 m"
  using assms by (auto simp: swept_to_def same_columns_refl drawn_def tail_cell_def)

lemma swept_to_step:
  assumes m: "grid_ok m" and col: "0 \<le> col" "col < width m" and j: "1 \<le> j"
    and s: "swept_to m col j s"
  shows "swept_to m col (j + 1) (tail_step col j s)"
proof -
  let ?d = "at1 (drops m) col"
  have gs: "grid_ok s" and sc: "same_columns m s"
    and rs: "rng s = (\<lambda>n. rng m (n + drawn m col j))"
    and cs: "\<And>row c. 0 \<le> row \<Longrightarrow> row < height m \<Longrightarrow> 0 \<le> c \<Longrightarrow> c < width m \<Longrightarrow>
           cell s row c = tail_cell m col j row c"
    using s by (simp_all add: swept_to_def)
  have dims: "width s = width m" "height s = height m" "at1 (drops s) col = ?d"
    using sc by (simp_all add: same_columns_def same_dims_def)
  have rw: "rewritten s col j \<longleftrightarrow> rewritten m col j"
  proof (cases "0 \<le> ?d - j \<and> ?d - j < height m")
    case True
    then have "cell s (?d - j) col = tail_cell m col j (?d - j) col"
      using cs col by simp
    then have "at2 (brightness s) (?d - j) col = at2 (brightness m) (?d - j) col"
      by (simp add: tail_cell_def cell_def)
    then show ?thesis by (simp add: rewritten_def dims)
  next
    case False
    then show ?thesis by (auto simp: rewritten_def dims)
  qed
  have g': "grid_ok (tail_step col j s)"
    using gs col j dims by (intro tail_step_grid_ok) simp_all
  have sc': "same_columns m (tail_step col j s)"
    using sc tail_step_same_columns [of s col j] by (rule same_columns_trans)
  have r': "rng (tail_step col j s) = (\<lambda>n. rng m (n + drawn m col (j + 1)))"
    unfolding tail_step_rng rw rs drawn_next [OF j] by auto
  have c': "cell (tail_step col j s) row c = tail_cell m col (j + 1) row c"
    if rc: "0 \<le> row" "row < height m" "0 \<le> c" "c < width m" for row c
  proof -
    have at: "cell (tail_step col j s) row c
        = (if row = ?d - j \<and> c = col \<and> rewritten m col j
           then (max 1 (10 - j), matrix_chars ! (rng s 0 mod 158)) else cell s row c)"
      using tail_step_at [OF gs col(1) _ rc(1) rc(3), of j] col dims rw by simp
    have r0: "rng s 0 = rng m (drawn m col j)" unfolding rs by simp
    show ?thesis
    proof (cases "row = ?d - j \<and> c = col")
      case True
      then have i: "?d - row = j" by simp
      show ?thesis
        unfolding at r0 cs [OF rc] using True j
        by (simp add: tail_cell_def i)
    next
      case False
      then have "c = col \<longrightarrow> ?d - row \<noteq> j" by auto
      then have "tail_cell m col (j + 1) row c = tail_cell m col j row c"
        by (auto simp: tail_cell_def)
      then show ?thesis unfolding at cs [OF rc] using False by auto
    qed
  qed
  show ?thesis using g' sc' r' c' by (simp add: swept_to_def)
qed

lemma swept_to_prefix:
  assumes m: "grid_ok m" and col: "0 \<le> col" "col < width m"
  shows "k = nat (j - 1) \<Longrightarrow> 1 \<le> j \<Longrightarrow> swept_to m col j (for_loop 1 j (tail_step col) m)"
proof (induction k arbitrary: j)
  case 0
  then have "j = 1" by simp
  then show ?case using swept_to_start [OF m] by (simp add: for_loop_empty)
next
  case (Suc k)
  then have j: "1 \<le> j - 1" "k = nat (j - 1 - 1)" by simp_all
  have "swept_to m col (j - 1) (for_loop 1 (j - 1) (tail_step col) m)"
    using j by (intro Suc.IH) simp_all
  then have "swept_to m col (j - 1 + 1) (tail_step col (j - 1) (for_loop 1 (j - 1) (tail_step col) m))"
    using m col j(1) by (intro swept_to_step)
  moreover have "for_loop 1 (j - 1 + 1) (tail_step col) m
      = tail_step col (j - 1) (for_loop 1 (j - 1) (tail_step col) m)"
    using j(1) by (rule for_loop_last)
  ultimately show ?case by simp
qed

lemma draw_tail_swept:
  assumes m: "grid_ok m" and col: "0 \<le> col" "col < width m"
  shows "swept_to m col (max 1 (at1 (lengths m) col)) (draw_tail col m)"
proof (cases "1 \<le> at1 (lengths m) col")
  case True
  then show ?thesis
    using swept_to_prefix [OF m col refl True] by (simp add: draw_tail_def max_def)
next
  case False
  then have "draw_tail col m = m" by (simp add: draw_tail_def for_loop_empty)
  then show ?thesis using False swept_to_start [OF m, of col] by (simp add: max_def)
qed

lemma draw_tail_cells:
  assumes m: "grid_ok m" and col: "0 \<le> col" "col < width m"
  shows "1 \<le> i \<and> i < at1 (lengths m) col
            \<and> 0 \<le> at1 (drops m) col - i \<and> at1 (drops m) col - i < height m \<Longrightarrow>
        (if at2 (brightness m) (at1 (drops m) col - i) col < 10 - i
         then at2 (brightness (draw_tail col m)) (at1 (drops m) col - i) col = max 1 (10 - i)
            \<and> at2 (screen (draw_tail col m)) (at1 (drops m) col - i) col
                = matrix_chars ! (rng m (drawn m col i) mod 158)
         else at2 (brightness (draw_tail col m)) (at1 (drops m) col - i) col
                = at2 (brightness m) (at1 (drops m) col - i) col
            \<and> at2 (screen (draw_tail col m)) (at1 (drops m) col - i) col
                = at2 (screen m) (at1 (drops m) col - i) col)"
    and "row \<in> {0..<height m} \<Longrightarrow> c \<in> {0..<width m} \<Longrightarrow>
          \<not> (c = col \<and> 1 \<le> at1 (drops m) col - row
               \<and> at1 (drops m) col - row < at1 (lengths m) col) \<Longrightarrow>
          at2 (brightness (draw_tail col m)) row c = at2 (brightness m) row c
          \<and> at2 (screen (draw_tail col m)) row c = at2 (screen m) row c"
    and "rng (draw_tail col m) = (\<lambda>n. rng m (n + drawn m col (at1 (lengths m) col)))"
proof -
  let ?d = "at1 (drops m) col"
  let ?l = "at1 (lengths m) col"
  have sw: "swept_to m col (max 1 ?l) (draw_tail col m)"
    using m col by (rule draw_tail_swept)
  then have cells: "cell (draw_tail col m) row c = tail_cell m col (max 1 ?l) row c"
    if "0 \<le> row" "row < height m" "0 \<le> c" "c < width m" for row c
    using that by (simp add: swept_to_def)
  show "if at2 (brightness m) (?d - i) col < 10 - i
         then at2 (brightness (draw_tail col m)) (?d - i) col = max 1 (10 - i)
            \<and> at2 (screen (draw_tail col m)) (?d - i) col
                = matrix_chars ! (rng m (drawn m col i) mod 158)
         else at2 (brightness (draw_tail col m)) (?d - i) col = at2 (brightness m) (?d - i) col
            \<and> at2 (screen (draw_tail col m)) (?d - i) col = at2 (screen m) (?d - i) col"
    if i: "1 \<le> i \<and> i < ?l \<and> 0 \<le> ?d - i \<and> ?d - i < height m"
  proof -
    have "cell (draw_tail col m) (?d - i) col = tail_cell m col (max 1 ?l) (?d - i) col"
      using i col by (intro cells) simp_all
    then show ?thesis
      using i by (auto simp: tail_cell_def cell_def rewritten_def)
  qed
  show "at2 (brightness (draw_tail col m)) row c = at2 (brightness m) row c
          \<and> at2 (screen (draw_tail col m)) row c = at2 (screen m) row c"
    if "row \<in> {0..<height m}" "c \<in> {0..<width m}"
      "\<not> (c = col \<and> 1 \<le> ?d - row \<and> ?d - row < ?l)"
  proof -
    have "cell (draw_tail col m) row c = tail_cell m col (max 1 ?l) row c"
      using that by (intro cells) simp_all
    then show ?thesis
      using that(3) by (auto simp: tail_cell_def cell_def max_def split: if_splits)
  qed
  show "rng (draw_tail col m) = (\<lambda>n. rng m (n + drawn m col ?l))"
  proof (cases "1 \<le> ?l")
    case True
    then show ?thesis using sw by (simp add: swept_to_def max_def)
  next
    case False
    then have "drawn m col ?l = drawn m col 1" by (simp add: drawn_def)
    then show ?thesis using sw False by (simp add: swept_to_def max_def)
  qed
qed

lemma draw_head_at:
  assumes m: "grid_ok m" and col: "0 \<le> col" "col < width m" and r: "0 \<le> r" "0 \<le> c"
  shows "cell (draw_head col m) r c
    = (if r = at1 (drops m) col \<and> c = col \<and> at1 (drops m) col < height m
       then (10, matrix_chars ! (rng m 0 mod 158)) else cell m r c)"
proof (cases "0 \<le> at1 (drops m) col \<and> at1 (drops m) col < height m")
  case True
  then have row: "0 \<le> at1 (drops m) col" "at1 (drops m) col < height m" by simp_all
  note gs = shape_gridD(1) [OF grid_ok_shapeD [OF m]]
    and gb = shape_gridD(2) [OF grid_ok_shapeD [OF m]]
  have "draw_head col m = m\<lparr>screen := set2 (screen m) (at1 (drops m) col) col
                   (matrix_chars ! (rng m 0 mod 158)),
             brightness := set2 (brightness m) (at1 (drops m) col) col 10,
             rng := snd (char_dist (rng m))\<rparr>"
    using row by (simp add: draw_head_eq char_dist_raw)
  then show ?thesis
    using row by (auto simp: cell_def at2_set2 [OF gs row col r] at2_set2 [OF gb row col r])
next
  case False
  then have "draw_head col m = m" by (simp only: draw_head_eq if_False)
  then show ?thesis using False r by auto
qed

lemma reset_drop_same_grid: "same_grid m (reset_drop col m)"
  by (simp add: reset_drop_def same_grid_def same_dims_def Let_def split: prod.splits)

lemma move_column_cells:
  assumes m: "grid_ok m" and col: "0 \<le> col" "col < width m"
  shows "1 \<le> i \<and> i < at1 (lengths m) col
            \<and> 0 \<le> at1 (drops m) col + 1 - i \<and> at1 (drops m) col + 1 - i < height m \<Longrightarrow>
        (if at2 (brightness m) (at1 (drops m) col + 1 - i) col < 10 - i
         then at2 (brightness (move_column col m)) (at1 (drops m) col + 1 - i) col = max 1 (10 - i)
            \<and> at2 (screen (move_column col m)) (at1 (drops m) col + 1 - i) col
                = matrix_chars ! (rng (draw_head col (advance_drop col m))
                     (drawn (draw_head col (advance_drop col m)) col i) mod 158)
         else at2 (brightness (move_column col m)) (at1 (drops m) col + 1 - i) col
                = at2 (brightness m) (at1 (drops m) col + 1 - i) col
            \<and> at2 (screen (move_column col m)) (at1 (drops m) col + 1 - i) col
                = at2 (screen m) (at1 (drops m) col + 1 - i) col)"
    and "0 \<le> at1 (drops m) col + 1 \<and> at1 (drops m) col + 1 < height m \<Longrightarrow>
          at2 (brightness (move_column col m)) (at1 (drops m) col + 1) col = 10
          \<and> at2 (screen (move_column col m)) (at1 (drops m) col + 1) col
              = matrix_chars ! (rng m 0 mod 158)"
proof -
  let ?d = "at1 (drops m) col + 1"
  let ?m1 = "advance_drop col m"
  let ?m2 = "draw_head col ?m1"
  let ?m3 = "draw_tail col ?m2"
  have cs: "cols_shape m" using m by (simp add: grid_ok_def shape_cols_shape)
  have g1: "grid_ok ?m1" using m by (rule advance_drop_grid_ok)
  have d1: "at1 (drops ?m1) col = ?d" "lengths ?m1 = lengths m" "height ?m1 = height m"
    "width ?m1 = width m" "brightness ?m1 = brightness m" "screen ?m1 = screen m" "rng ?m1 = rng m"
    using cols_shape_in [OF cs col] col by (simp_all add: advance_drop_def at1_set1)
  have w1: "col < width ?m1" using col d1 by simp
  have g2: "grid_ok ?m2" using g1 col(1) w1 by (rule draw_head_grid_ok)
  have sc2: "same_columns ?m1 ?m2" by (rule draw_head_same_columns)
  have d2: "at1 (drops ?m2) col = ?d" "at1 (lengths ?m2) col = at1 (lengths m) col"
    "height ?m2 = height m" "width ?m2 = width m"
    using sc2 d1 by (simp_all add: same_columns_def same_dims_def)
  have w2: "col < width ?m2" using col d2 by simp
  have c2: "cell ?m2 r c
      = (if r = ?d \<and> c = col \<and> ?d < height m
         then (10, matrix_chars ! (rng m 0 mod 158)) else cell m r c)"
    if "0 \<le> r" "0 \<le> c" for r c
    using draw_head_at [OF g1 col(1) w1 that] d1 by (simp add: cell_def)
  have grid: "brightness (move_column col m) = brightness ?m3"
    "screen (move_column col m) = screen ?m3"
    using reset_drop_same_grid [of ?m3 col] by (simp_all add: move_column_def same_grid_def)
  show "if at2 (brightness m) (?d - i) col < 10 - i
         then at2 (brightness (move_column col m)) (?d - i) col = max 1 (10 - i)
            \<and> at2 (screen (move_column col m)) (?d - i) col
                = matrix_chars ! (rng ?m2 (drawn ?m2 col i) mod 158)
         else at2 (brightness (move_column col m)) (?d - i) col = at2 (brightness m) (?d - i) col
            \<and> at2 (screen (move_column col m)) (?d - i) col = at2 (screen m) (?d - i) col"
    if i: "1 \<le> i \<and> i < at1 (lengths m) col \<and> 0 \<le> ?d - i \<and> ?d - i < height m"
  proof -
    have "cell ?m2 (?d - i) col = cell m (?d - i) col"
      using c2 [of "?d - i" col] i col by simp
    then have same: "at2 (brightness ?m2) (?d - i) col = at2 (brightness m) (?d - i) col"
      "at2 (screen ?m2) (?d - i) col = at2 (screen m) (?d - i) col"
      by (simp_all add: cell_def)
    have "1 \<le> i \<and> i < at1 (lengths ?m2) col
        \<and> 0 \<le> at1 (drops ?m2) col - i \<and> at1 (drops ?m2) col - i < height ?m2"
      using i d2 by simp
    from draw_tail_cells(1) [OF g2 col(1) w2 this]
    show ?thesis unfolding grid d2 same .
  qed
  show "at2 (brightness (move_column col m)) ?d col = 10
          \<and> at2 (screen (move_column col m)) ?d col = matrix_chars ! (rng m 0 mod 158)"
    if h: "0 \<le> ?d \<and> ?d < height m"
  proof -
    have "cell ?m2 ?d col = (10, matrix_chars ! (rng m 0 mod 158))"
      using c2 [of ?d col] h col by simp
    moreover have "at2 (brightness ?m3) ?d col = at2 (brightness ?m2) ?d col
          \<and> at2 (screen ?m3) ?d col = at2 (screen ?m2) ?d col"
      using h col d2 by (intro draw_tail_cells(2) [OF g2 col(1) w2]) simp_all
    ultimately show ?thesis unfolding grid by (simp add: cell_def)
  qed
qed

subsection \<open>Painting\<close>

lemma for_loop_append_aux:
  "k = nat (n - a) \<Longrightarrow>
     for_loop a n (\<lambda>i out. out @ f i) out0 = out0 @ concat (map f [a..n - 1])"
proof (induction k arbitrary: a out0)
  case 0
  then show ?case by (simp add: for_loop_empty)
next
  case (Suc k)
  then have lt: "a < n" by simp
  then have up: "[a..n - 1] = a # [a + 1..n - 1]" by (simp add: upto_rec1)
  have "k = nat (n - (a + 1))" using Suc.prems by simp
  then have "for_loop (a + 1) n (\<lambda>i out. out @ f i) (out0 @ f a)
      = (out0 @ f a) @ concat (map f [a + 1..n - 1])"
    by (rule Suc.IH)
  then show ?case using lt by (simp add: for_loop_first up)
qed

lemma for_loop_append:
  "for_loop a n (\<lambda>i out. out @ f i) out0 = out0 @ concat (map f [a..n - 1])"
  using for_loop_append_aux [of "nat (n - a)" n a f out0] by simp

lemma render_row_eq:
  "render_row m row out =
     out @ row_text m row @ (if row < height m - 1 then [CHR 0x0A] else [])"
  by (simp add: render_row_def row_text_def for_loop_append Let_def)

lemma join_rows_Cons:
  "join_rows (r # rs) = (if rs = [] then r else r @ [CHR 0x0A] @ join_rows rs)"
  by (cases rs) simp_all

lemma render_rows_aux:
  "k = nat (h - a) \<Longrightarrow> h = height m \<Longrightarrow>
     for_loop a h (render_row m) out = out @ join_rows (map (row_text m) [a..h - 1])"
proof (induction k arbitrary: a out)
  case 0
  then show ?case by (simp add: for_loop_empty)
next
  case (Suc k)
  then have lt: "a < h" by simp
  then have up: "[a..h - 1] = a # [a + 1..h - 1]" by (simp add: upto_rec1)
  have k: "k = nat (h - (a + 1))" using Suc.prems by simp
  have step: "for_loop a h (render_row m) out = for_loop (a + 1) h (render_row m) (render_row m a out)"
    using lt by (rule for_loop_first)
  have ih: "for_loop (a + 1) h (render_row m) (render_row m a out)
      = render_row m a out @ join_rows (map (row_text m) [a + 1..h - 1])"
    using k Suc.prems(2) by (rule Suc.IH)
  show ?case
  proof (cases "a < h - 1")
    case True
    then have "[a + 1..h - 1] \<noteq> []" by simp
    then have "join_rows (map (row_text m) [a..h - 1])
        = row_text m a @ [CHR 0x0A] @ join_rows (map (row_text m) [a + 1..h - 1])"
      unfolding up by (simp add: join_rows_Cons)
    then show ?thesis
      unfolding step ih using True Suc.prems(2) by (simp add: render_row_eq)
  next
    case False
    then have e: "[a + 1..h - 1] = []" by simp
    have "join_rows (map (row_text m) [a..h - 1]) = row_text m a"
      unfolding up e by simp
    then show ?thesis
      unfolding step ih using False Suc.prems(2) by (simp add: render_row_eq e)
  qed
qed

lemma render_eq: "render m = cursor_home @ join_rows (map (row_text m) [0..height m - 1])"
  using render_rows_aux [of "nat (height m)" "height m" 0 m cursor_home]
  by (simp add: render_def)

lemma map_constant: "(\<forall>x\<in>set xs. f x = c) \<Longrightarrow> map f xs = replicate (length xs) c"
  by (induction xs) simp_all

lemma concat_replicate_single: "concat (replicate n [x]) = replicate n x"
  by (induction n) simp_all

lemma row_text_blank:
  assumes "blank m" and "0 \<le> row" "row < height m"
  shows "row_text m row = replicate (nat (width m)) CHR '' ''"
proof -
  have "\<forall>col\<in>set [0..width m - 1]. render_cell m row col = '' ''"
    using assms by (simp add: blank_def render_cell_def)
  then have "map (render_cell m row) [0..width m - 1]
      = replicate (length [0..width m - 1]) '' ''"
    by (rule map_constant)
  then show ?thesis by (simp add: row_text_def concat_replicate_single)
qed

lemma rows_blank:
  assumes "blank m"
  shows "map (row_text m) [0..height m - 1]
    = replicate (nat (height m)) (replicate (nat (width m)) CHR '' '')"
proof -
  have "\<forall>row\<in>set [0..height m - 1]. row_text m row = replicate (nat (width m)) CHR '' ''"
    using row_text_blank [OF assms] by simp
  then have "map (row_text m) [0..height m - 1]
      = replicate (length [0..height m - 1]) (replicate (nat (width m)) CHR '' '')"
    by (rule map_constant)
  then show ?thesis by simp
qed

lemma set_join_rows: "set (join_rows rs) \<subseteq> (\<Union>r\<in>set rs. set r) \<union> {CHR 0x0A}"
  by (induction rs rule: join_rows.induct) auto

subsection \<open>The process\<close>

lemma stderr_text_append: "stderr_text (tr @ tr') = stderr_text tr @ stderr_text tr'"
  by (induction tr rule: stderr_text.induct) simp_all

lemma run_loop_returns:
  "kbhit (n + j) \<Longrightarrow>
     \<exists>m' tr'. run_loop kbhit n m tr = Some (m', tr') \<and> stderr_text tr' = stderr_text tr"
proof (induction j arbitrary: n m tr)
  case 0
  then show ?case by (simp add: run_loop.simps [of kbhit n])
next
  case (Suc j)
  show ?case
  proof (cases "kbhit n")
    case True
    then show ?thesis by (simp add: run_loop.simps [of kbhit n])
  next
    case False
    have "kbhit (Suc n + j)" using Suc.prems by simp
    then obtain m' tr' where
      "run_loop kbhit (Suc n) (update m) (tr @ [Stdout (render (update m)), sleep_ms 8])
        = Some (m', tr')"
      "stderr_text tr' = stderr_text (tr @ [Stdout (render (update m)), sleep_ms 8])"
      using Suc.IH [of "Suc n" "update m" "tr @ [Stdout (render (update m)), sleep_ms 8]"]
      by blast
    then show ?thesis
      using False by (simp add: run_loop.simps [of kbhit n] stderr_text_append sleep_ms_def)
  qed
qed

lemma run_loop_needs_key:
  assumes "run_loop kbhit n m tr = Some r"
  shows "\<exists>j. kbhit (n + j)"
proof (rule run_loop.raw_induct [where P = "\<lambda>kbhit n m tr r. \<exists>j. kbhit (n + j)", OF _ assms])
  fix f and kbhit :: "nat \<Rightarrow> bool" and n m tr r
  assume ih: "\<And>kbhit n m tr r. f kbhit n m tr = Some r \<Longrightarrow> \<exists>j. kbhit (n + j)"
    and body: "(if \<not> kbhit n
        then f kbhit (Suc n) (update m) (tr @ [Stdout (render (update m)), sleep_ms 8])
        else Some (m, tr)) = Some r"
  show "\<exists>j. kbhit (n + j)"
  proof (cases "kbhit n")
    case True
    then have "kbhit (n + 0)" by simp
    then show ?thesis by blast
  next
    case False
    then have "f kbhit (Suc n) (update m) (tr @ [Stdout (render (update m)), sleep_ms 8]) = Some r"
      using body by simp
    then obtain j where "kbhit (Suc n + j)" using ih by blast
    then have "kbhit (n + Suc j)" by simp
    then show ?thesis by blast
  qed
qed

section \<open>The claims\<close>

text \<open>
  C1. In every state reached from the constructor by any number of ticks, and for every
  cell of the grid, the fade pass of the next tick leaves the brightness three lower, but
  not below 0, and the brightness lies in \<open>[0, 10]\<close> after that fade pass and after the
  advance pass that follows it.
\<close>

theorem brightness_in_range:
  assumes "m = run_ticks spawn_first w seed n"
    and "0 \<le> row" "row < height m" "0 \<le> col" "col < width m"
  shows "at2 (brightness (fade_pass m)) row col = max 0 (at2 (brightness m) row col - 3)
    \<and> 0 \<le> at2 (brightness (fade_pass m)) row col \<and> at2 (brightness (fade_pass m)) row col \<le> 10
    \<and> 0 \<le> at2 (brightness (advance_pass (fade_pass m))) row col
    \<and> at2 (brightness (advance_pass (fade_pass m))) row col \<le> 10"
proof -
  have m: "ok m" unfolding assms(1) by (rule ok_run)
  then have f: "ok (fade_pass m)" by (rule fade_pass_ok)
  then have a: "ok (advance_pass (fade_pass m))" by (rule advance_pass_ok)
  have df: "same_columns m (fade_pass m)" by (rule fade_pass_same_columns)
  have da: "same_dims (fade_pass m) (advance_pass (fade_pass m))"
    using advance_pass_grid_ok [of "fade_pass m"] f by (simp add: ok_def)
  have "cell (fade_pass m) row col = faded (cell m row col)"
    using m assms(2-5) by (intro fade_pass_at) (simp_all add: ok_def)
  then have three: "at2 (brightness (fade_pass m)) row col = max 0 (at2 (brightness m) row col - 3)"
    by (simp add: cell_def faded_def)
  have "cell_ok (at2 (screen (fade_pass m)) row col) (at2 (brightness (fade_pass m)) row col)"
    using f assms(2-5) df
    by (intro grid_ok_cellD) (simp_all add: ok_def same_columns_def same_dims_def)
  moreover have "cell_ok (at2 (screen (advance_pass (fade_pass m))) row col)
      (at2 (brightness (advance_pass (fade_pass m))) row col)"
    using a assms(2-5) df da
    by (intro grid_ok_cellD) (simp_all add: ok_def same_columns_def same_dims_def)
  ultimately show ?thesis using three by (simp add: cell_ok_def)
qed

theorem brightness_in_range_witness:
  "0 \<le> (0::int) \<and> 0 < height (run_ticks True window_1x1 seed_a 8)
    \<and> 0 < width (run_ticks True window_1x1 seed_a 8)
    \<and> at2 (brightness (fade_pass (run_ticks True window_1x1 seed_a 8))) 0 0 = 6
    \<and> at2 (brightness (advance_pass (fade_pass (run_ticks True window_1x1 seed_a 8)))) 0 0 = 8
    \<and> (0::int) \<le> 6 \<and> (6::int) \<le> 10 \<and> (0::int) \<le> 8 \<and> (8::int) \<le> 10"
proof -
  have h: "0 < height (run_ticks True window_1x1 seed_a 8)"
    "0 < width (run_ticks True window_1x1 seed_a 8)"
    by code_simp+
  have v: "at2 (brightness (fade_pass (run_ticks True window_1x1 seed_a 8))) 0 0 = 6"
    "at2 (brightness (advance_pass (fade_pass (run_ticks True window_1x1 seed_a 8)))) 0 0 = 8"
    by code_simp+
  show ?thesis
    using brightness_in_range [where row = 0 and col = 0, OF refl _ h(1) _ h(2)] h v
    by simp
qed

text \<open>
  C2. In a reachable state, let a column have head \<open>d\<close>, speed \<open>s\<close>, trail length \<open>l\<close> and
  counter \<open>k\<close>. Then \<open>1 \<le> s \<le> 4\<close> and \<open>0 \<le> k < s\<close>; over the next \<open>s - k - 1\<close> ticks the
  column rests: head, speed and trail length stay and the counter counts up, staying below
  \<open>s\<close>; and tick number \<open>s - k\<close> is the next one to move the column: the counter returns to
  0 and the head is advanced by exactly 1 (to \<open>d + 1\<close>, after which the same tick resets it
  to a negative row when \<open>d + 1 - l > height\<close>). Counted from a tick that moved the column
  (\<open>k = 0\<close>), the next move comes after exactly \<open>s\<close> ticks.
\<close>

theorem advance_once_every_speed_ticks:
  assumes "m = run_ticks spawn_first w seed n"
    and col: "0 \<le> col" "col < width m"
    and c: "column m col = (d, s, l, k)"
  shows "1 \<le> s \<and> s \<le> 4 \<and> 0 \<le> k \<and> k < s
    \<and> (\<forall>j. int j < s - k \<longrightarrow> column (ticks j m) col = (d, s, l, k + int j))
    \<and> at1 (counters (ticks (nat (s - k)) m)) col = 0
    \<and> (d + 1 - l \<le> height m \<longrightarrow> at1 (drops (ticks (nat (s - k)) m)) col = d + 1)
    \<and> (d + 1 - l > height m \<longrightarrow>
         (\<exists>delay\<in>{0..50}. at1 (drops (ticks (nat (s - k)) m)) col = - delay - l))"
proof -
  have m: "ok m" unfolding assms(1) by (rule ok_run)
  have "column_ok (height m) d s l k"
    using ok_columnD [OF m col] c by (simp add: column_def)
  then have b: "1 \<le> s" "s \<le> 4" "0 \<le> k" "k < s" by (simp_all add: column_ok_def)
  have rest: "\<forall>j. int j < s - k \<longrightarrow> column (ticks j m) col = (d, s, l, k + int j)"
    using column_rests [OF m col c] by blast
  define j where "j = nat (s - k) - 1"
  have j: "int j = s - k - 1" "nat (s - k) = Suc j" using b by (simp_all add: j_def)
  have before: "column (ticks j m) col = (d, s, l, s - 1)"
    using rest j by simp
  have okj: "ok (ticks j m)" using m by (rule ok_ticks)
  then have cs: "cols_shape (ticks j m)" by (simp add: ok_def grid_ok_def shape_cols_shape)
  have dims: "same_dims m (ticks j m)" using m by (rule ticks_same_dims)
  then have w: "col < width (ticks j m)" and h: "height (ticks j m) = height m"
    using col by (simp_all add: same_dims_def)
  obtain g where "column (update (ticks j m)) col
      = next_column (height (ticks j m)) g (column (ticks j m) col)"
    using update_column_state [OF cs col(1) w] by blast
  then have after: "column (ticks (nat (s - k)) m) col = next_column (height m) g (d, s, l, s - 1)"
    using before h j by simp
  have "fst (spawn_dist g) \<in> {0..50}" using spawn_dist_range [of g] by simp
  then have "d + 1 - l > height m \<longrightarrow>
      (\<exists>delay\<in>{0..50}. at1 (drops (ticks (nat (s - k)) m)) col = - delay - l)"
    using after by (auto simp: column_def next_column_def split: if_splits)
  moreover have "at1 (counters (ticks (nat (s - k)) m)) col = 0"
    "d + 1 - l \<le> height m \<longrightarrow> at1 (drops (ticks (nat (s - k)) m)) col = d + 1"
    using after by (auto simp: column_def next_column_def split: if_splits)
  ultimately show ?thesis using b rest by blast
qed

theorem advance_once_every_speed_ticks_witness:
  "0 \<le> (0::int) \<and> 0 < width (run_ticks True window_0x1 seed_b 0)
    \<and> column (run_ticks True window_0x1 seed_b 0) 0 = (- 11, 3, 9, 0)
    \<and> column (ticks 2 (run_ticks True window_0x1 seed_b 0)) 0 = (- 11, 3, 9, 2)
    \<and> at1 (counters (ticks 3 (run_ticks True window_0x1 seed_b 0))) 0 = 0
    \<and> at1 (drops (ticks 3 (run_ticks True window_0x1 seed_b 0))) 0 = - 10"
proof -
  have h: "0 < width (run_ticks True window_0x1 seed_b 0)"
    "column (run_ticks True window_0x1 seed_b 0) 0 = (- 11, 3, 9, 0)"
    "height (run_ticks True window_0x1 seed_b 0) = 0"
    by code_simp+
  note t = advance_once_every_speed_ticks [where col = 0, OF refl _ h(1) h(2)]
  have "int 2 < 3 - 0 \<longrightarrow>
      column (ticks 2 (run_ticks True window_0x1 seed_b 0)) 0 = (- 11, 3, 9, 0 + int 2)"
    using t by blast
  then have "column (ticks 2 (run_ticks True window_0x1 seed_b 0)) 0 = (- 11, 3, 9, 2)"
    by simp
  moreover have "at1 (counters (ticks (nat (3 - 0)) (run_ticks True window_0x1 seed_b 0))) 0 = 0"
    "at1 (drops (ticks (nat (3 - 0)) (run_ticks True window_0x1 seed_b 0))) 0 = - 11 + 1"
    using t h(3) by simp_all
  ultimately show ?thesis using h by simp
qed

text \<open>
  C3. When a tick moves a column of a reachable state (its counter reaches its speed) and
  the head, once advanced, is more than the trail length below the last row, then the same
  tick resets the column: after the tick the head is negative (it is the old trail length
  below a delay drawn from \<open>[0, 50]\<close>), the trail length lies in \<open>[7, 10]\<close>, the speed in
  \<open>[1, 4]\<close> and the counter is 0.
\<close>

theorem reset_when_off_screen:
  assumes "m = run_ticks spawn_first w seed n"
    and col: "0 \<le> col" "col < width m"
    and moves: "at1 (counters m) col + 1 \<ge> at1 (speeds m) col"
    and gone: "at1 (drops m) col + 1 - at1 (lengths m) col > height m"
  shows "at1 (drops (update m)) col < 0
    \<and> 7 \<le> at1 (lengths (update m)) col \<and> at1 (lengths (update m)) col \<le> 10
    \<and> 1 \<le> at1 (speeds (update m)) col \<and> at1 (speeds (update m)) col \<le> 4
    \<and> at1 (counters (update m)) col = 0
    \<and> (\<exists>d\<in>{0..50}. at1 (drops (update m)) col = - d - at1 (lengths m) col)"
proof -
  have m: "ok m" unfolding assms(1) by (rule ok_run)
  then have cs: "cols_shape m" by (simp add: ok_def grid_ok_def shape_cols_shape)
  have old: "7 \<le> at1 (lengths m) col"
    using ok_columnD [OF m col] by (simp add: column_ok_def)
  obtain g where "column (update m) col = next_column (height m) g (column m col)"
    using update_column_state [OF cs col] by blast
  then have new: "at1 (drops (update m)) col = - fst (spawn_dist g) - at1 (lengths m) col"
    "at1 (speeds (update m)) col = fst (speed_dist (snd (spawn_dist g)))"
    "at1 (lengths (update m)) col = fst (length_dist (snd (speed_dist (snd (spawn_dist g)))))"
    "at1 (counters (update m)) col = 0"
    using moves gone by (simp_all add: column_def next_column_def)
  have "fst (spawn_dist g) \<in> {0..50}" using spawn_dist_range [of g] by simp
  then have "\<exists>d\<in>{0..50}. at1 (drops (update m)) col = - d - at1 (lengths m) col"
    using new(1) by blast
  then show ?thesis
    using new old spawn_dist_range [of g] speed_dist_range [of "snd (spawn_dist g)"]
      length_dist_range [of "snd (speed_dist (snd (spawn_dist g)))"]
    by simp
qed

theorem reset_when_off_screen_witness:
  "0 \<le> (0::int) \<and> 0 < width (run_ticks True window_0x1 seed_a 14)
    \<and> at1 (counters (run_ticks True window_0x1 seed_a 14)) 0 + 1
        \<ge> at1 (speeds (run_ticks True window_0x1 seed_a 14)) 0
    \<and> at1 (drops (run_ticks True window_0x1 seed_a 14)) 0 = 7
    \<and> at1 (lengths (run_ticks True window_0x1 seed_a 14)) 0 = 7
    \<and> height (run_ticks True window_0x1 seed_a 14) = 0
    \<and> at1 (drops (update (run_ticks True window_0x1 seed_a 14))) 0 < 0
    \<and> at1 (lengths (update (run_ticks True window_0x1 seed_a 14))) 0 \<in> {7..10}
    \<and> at1 (speeds (update (run_ticks True window_0x1 seed_a 14))) 0 \<in> {1..4}"
proof -
  have h: "0 < width (run_ticks True window_0x1 seed_a 14)"
    "at1 (counters (run_ticks True window_0x1 seed_a 14)) 0 + 1
        \<ge> at1 (speeds (run_ticks True window_0x1 seed_a 14)) 0"
    "at1 (drops (run_ticks True window_0x1 seed_a 14)) 0 = 7"
    "at1 (lengths (run_ticks True window_0x1 seed_a 14)) 0 = 7"
    "height (run_ticks True window_0x1 seed_a 14) = 0"
    by code_simp+
  have gone: "at1 (drops (run_ticks True window_0x1 seed_a 14)) 0 + 1
      - at1 (lengths (run_ticks True window_0x1 seed_a 14)) 0
      > height (run_ticks True window_0x1 seed_a 14)"
    unfolding h by simp
  show ?thesis
    using reset_when_off_screen [where col = 0, OF refl _ h(1) h(2) gone] h
    by simp
qed

text \<open>
  C4. The claim, that a respawn computes the new head as the constructor does, from a fresh
  delay and a fresh trail length, fails: with a terminal of no rows and one column and the
  generator \<open>seed_c\<close>, the fifteenth tick resets the column; the delay drawn is 3, every trail
  length that this generator can still deliver is 10, so the formula of the constructor
  gives \<open>-13\<close> in either order of evaluation, and the code stores \<open>-10\<close>, the delay below the
  old trail length 7. (\<open>advance_drop 0\<close> of the state after 14 ticks is the state in which
  line 200 is reached on that tick: with no rows, head and tail write nothing.)
\<close>

theorem respawn_head_not_as_initialized:
  "at1 (lengths (run_ticks True window_0x1 seed_c 14)) 0 = 7
    \<and> at1 (drops (update (run_ticks True window_0x1 seed_c 14))) 0 = - 10
    \<and> at1 (drops (reset_drop 0 (advance_drop 0 (run_ticks True window_0x1 seed_c 14)))) 0 = - 10
    \<and> fst (initial_head True (rng (advance_drop 0 (run_ticks True window_0x1 seed_c 14)))) = - 13
    \<and> fst (initial_head False (rng (advance_drop 0 (run_ticks True window_0x1 seed_c 14)))) = - 13"
  by code_simp

text \<open>
  C4, as amended. When line 200 finds the drop of a column off the screen, the new head is
  the column's trail length before the reset, not a fresh one, below a fresh delay that
  lies in \<open>[0, 50]\<close> and is the next draw of the generator; the new speed and the new trail
  length are the two draws after it, and the new trail length does not enter the new head.
\<close>

theorem respawn_head_uses_old_length:
  assumes "cols_shape m" and "0 \<le> col" "col < width m"
    and "at1 (drops m) col - at1 (lengths m) col > height m"
  shows "at1 (drops (reset_drop col m)) col = - fst (spawn_dist (rng m)) - at1 (lengths m) col
    \<and> 0 \<le> fst (spawn_dist (rng m)) \<and> fst (spawn_dist (rng m)) \<le> 50
    \<and> at1 (speeds (reset_drop col m)) col = fst (speed_dist (snd (spawn_dist (rng m))))
    \<and> at1 (lengths (reset_drop col m)) col
        = fst (length_dist (snd (speed_dist (snd (spawn_dist (rng m))))))
    \<and> rng (reset_drop col m) = snd (length_dist (snd (speed_dist (snd (spawn_dist (rng m))))))"
  using reset_drop_column [OF assms(1-3)] assms(4) spawn_dist_range [of "rng m"]
  by (simp add: column_def reset_drop_rng)

theorem respawn_head_uses_old_length_witness:
  "cols_shape (advance_drop 0 (run_ticks True window_0x1 seed_c 14))
    \<and> 0 \<le> (0::int) \<and> 0 < width (advance_drop 0 (run_ticks True window_0x1 seed_c 14))
    \<and> at1 (drops (advance_drop 0 (run_ticks True window_0x1 seed_c 14))) 0
        - at1 (lengths (advance_drop 0 (run_ticks True window_0x1 seed_c 14))) 0
        > height (advance_drop 0 (run_ticks True window_0x1 seed_c 14))
    \<and> at1 (lengths (advance_drop 0 (run_ticks True window_0x1 seed_c 14))) 0 = 7
    \<and> fst (spawn_dist (rng (advance_drop 0 (run_ticks True window_0x1 seed_c 14)))) = 3
    \<and> at1 (drops (reset_drop 0 (advance_drop 0 (run_ticks True window_0x1 seed_c 14)))) 0 = - 10"
proof -
  have h: "cols_shape (advance_drop 0 (run_ticks True window_0x1 seed_c 14))"
    "0 < width (advance_drop 0 (run_ticks True window_0x1 seed_c 14))"
    "at1 (drops (advance_drop 0 (run_ticks True window_0x1 seed_c 14))) 0
        - at1 (lengths (advance_drop 0 (run_ticks True window_0x1 seed_c 14))) 0
        > height (advance_drop 0 (run_ticks True window_0x1 seed_c 14))"
    by code_simp+
  have v: "at1 (lengths (advance_drop 0 (run_ticks True window_0x1 seed_c 14))) 0 = 7"
    "fst (spawn_dist (rng (advance_drop 0 (run_ticks True window_0x1 seed_c 14)))) = 3"
    by code_simp+
  show ?thesis
    using respawn_head_uses_old_length [OF h(1) _ h(2) h(3)] h v by simp
qed

text \<open>
  C5. Let a column start its sweep in a state whose grid satisfies the invariant (as every
  state does in which lines 183 to 197 are reached: \<open>move_column_grid_ok\<close>), with head
  \<open>d\<close> and trail length \<open>l\<close>. The tail loop goes through the offsets \<open>1\<close> to \<open>l - 1\<close>: a
  cell \<open>d - i\<close> rows on the screen holds afterwards brightness \<open>max 1 (10 - i)\<close> and the
  next glyph of the generator, the character of \<open>matrix_chars\<close> at the raw value modulo 158,
  if its brightness was below \<open>10 - i\<close>, and what it held otherwise; every other cell of the
  grid is as before; and the generator has given one value for each cell rewritten. The
  same holds of the whole move of a column (lines 179 to 204), whose head is one row
  further down. One step of the loop rewrites its cell under that very condition and is
  the identity otherwise; and neither the tail loop nor the head write followed by it
  lowers the brightness of any cell.
\<close>

theorem tail_write_rule:
  assumes m: "grid_ok m" and col: "0 \<le> col" "col < width m"
  shows "(\<forall>i. 1 \<le> i \<and> i < at1 (lengths m) col
            \<and> 0 \<le> at1 (drops m) col - i \<and> at1 (drops m) col - i < height m \<longrightarrow>
        (if at2 (brightness m) (at1 (drops m) col - i) col < 10 - i
         then at2 (brightness (draw_tail col m)) (at1 (drops m) col - i) col = max 1 (10 - i)
            \<and> at2 (screen (draw_tail col m)) (at1 (drops m) col - i) col
                = matrix_chars ! (rng m (drawn m col i) mod 158)
         else at2 (brightness (draw_tail col m)) (at1 (drops m) col - i) col
                = at2 (brightness m) (at1 (drops m) col - i) col
            \<and> at2 (screen (draw_tail col m)) (at1 (drops m) col - i) col
                = at2 (screen m) (at1 (drops m) col - i) col))
    \<and> (\<forall>row\<in>{0..<height m}. \<forall>c\<in>{0..<width m}.
          \<not> (c = col \<and> 1 \<le> at1 (drops m) col - row
               \<and> at1 (drops m) col - row < at1 (lengths m) col) \<longrightarrow>
          at2 (brightness (draw_tail col m)) row c = at2 (brightness m) row c
          \<and> at2 (screen (draw_tail col m)) row c = at2 (screen m) row c)
    \<and> rng (draw_tail col m) = (\<lambda>n. rng m (n + drawn m col (at1 (lengths m) col)))
    \<and> (\<forall>i. 1 \<le> i \<and> i < at1 (lengths m) col
            \<and> 0 \<le> at1 (drops m) col + 1 - i \<and> at1 (drops m) col + 1 - i < height m \<longrightarrow>
        (if at2 (brightness m) (at1 (drops m) col + 1 - i) col < 10 - i
         then at2 (brightness (move_column col m)) (at1 (drops m) col + 1 - i) col = max 1 (10 - i)
            \<and> at2 (screen (move_column col m)) (at1 (drops m) col + 1 - i) col
                = matrix_chars ! (rng (draw_head col (advance_drop col m))
                     (drawn (draw_head col (advance_drop col m)) col i) mod 158)
         else at2 (brightness (move_column col m)) (at1 (drops m) col + 1 - i) col
                = at2 (brightness m) (at1 (drops m) col + 1 - i) col
            \<and> at2 (screen (move_column col m)) (at1 (drops m) col + 1 - i) col
                = at2 (screen m) (at1 (drops m) col + 1 - i) col))
    \<and> (\<forall>i. 0 \<le> at1 (drops m) col - i \<and> at1 (drops m) col - i < height m \<longrightarrow>
        (if at2 (brightness m) (at1 (drops m) col - i) col < 10 - i
         then at2 (brightness (tail_step col i m)) (at1 (drops m) col - i) col = max 1 (10 - i)
            \<and> at2 (screen (tail_step col i m)) (at1 (drops m) col - i) col
                = matrix_chars ! (rng m 0 mod 158)
            \<and> rng (tail_step col i m) = (\<lambda>n. rng m (Suc n))
         else tail_step col i m = m))
    \<and> (\<forall>i. \<not> (0 \<le> at1 (drops m) col - i \<and> at1 (drops m) col - i < height m) \<longrightarrow>
          tail_step col i m = m)
    \<and> (\<forall>row\<in>{0..<height m}. \<forall>c\<in>{0..<width m}.
          at2 (brightness m) row c \<le> at2 (brightness (draw_tail col m)) row c
          \<and> at2 (brightness m) row c \<le> at2 (brightness (draw_tail col (draw_head col m))) row c)"
proof -
  let ?d = "at1 (drops m) col"
  let ?l = "at1 (lengths m) col"
  note gs = shape_gridD(1) [OF grid_ok_shapeD [OF m]]
    and gb = shape_gridD(2) [OF grid_ok_shapeD [OF m]]
  note sweep = draw_tail_cells(1) [OF m col]
  note others = draw_tail_cells(2) [OF m col]
  note gen = draw_tail_cells(3) [OF m col]
  note move = move_column_cells(1) [OF m col]
  have one: "if at2 (brightness m) (?d - i) col < 10 - i
         then at2 (brightness (tail_step col i m)) (?d - i) col = max 1 (10 - i)
            \<and> at2 (screen (tail_step col i m)) (?d - i) col = matrix_chars ! (rng m 0 mod 158)
            \<and> rng (tail_step col i m) = (\<lambda>n. rng m (Suc n))
         else tail_step col i m = m"
    if row: "0 \<le> ?d - i \<and> ?d - i < height m" for i
  proof -
    have r: "0 \<le> ?d - i" "?d - i < height m" using row by simp_all
    have "cell (tail_step col i m) (?d - i) col
        = (if rewritten m col i then (max 1 (10 - i), matrix_chars ! (rng m 0 mod 158))
           else cell m (?d - i) col)"
      using tail_step_at [OF m col r(1) col(1), of i] by simp
    then show ?thesis
      using row by (auto simp: cell_def rewritten_def tail_step_rng tail_step_raw)
  qed
  have two: "tail_step col i m = m"
    if "\<not> (0 \<le> ?d - i \<and> ?d - i < height m)" for i
    using that by (auto simp: tail_step_raw rewritten_def)
  have three: "at2 (brightness m) row c \<le> at2 (brightness (draw_tail col m)) row c
      \<and> at2 (brightness m) row c \<le> at2 (brightness (draw_tail col (draw_head col m))) row c"
    if "row \<in> {0..<height m}" "c \<in> {0..<width m}" for row c
  proof -
    have rc: "0 \<le> row" "row < height m" "0 \<le> c" "c < width m" using that by simp_all
    have h: "grid_ok (draw_head col m)" using m col by (rule draw_head_grid_ok)
    have d: "same_columns m (draw_head col m)" by (rule draw_head_same_columns)
    have "at2 (brightness m) row c \<le> at2 (brightness (draw_head col m)) row c"
      using m col rc by (rule draw_head_mono)
    moreover have "at2 (brightness (draw_head col m)) row c
        \<le> at2 (brightness (draw_tail col (draw_head col m))) row c"
      using h col rc d by (intro draw_tail_mono) (simp_all add: same_columns_def same_dims_def)
    ultimately show ?thesis using draw_tail_mono [OF m col rc] by simp
  qed
  show ?thesis using sweep others gen move one two three by blast
qed

theorem tail_write_rule_witness:
  "grid_ok (draw_head 0 (advance_drop 0 (fade_pass (run_ticks True window_4x1 seed_count 9))))
    \<and> 0 \<le> (0::int)
    \<and> 0 < width (draw_head 0 (advance_drop 0 (fade_pass (run_ticks True window_4x1 seed_count 9))))
    \<and> brightness (draw_head 0 (advance_drop 0 (fade_pass (run_ticks True window_4x1 seed_count 9))))
        = [[5], [6], [7], [10]]
    \<and> at2 (brightness (draw_tail 0
          (draw_head 0 (advance_drop 0 (fade_pass (run_ticks True window_4x1 seed_count 9)))))) 2 0 = 9
    \<and> at2 (brightness (draw_tail 0
          (draw_head 0 (advance_drop 0 (fade_pass (run_ticks True window_4x1 seed_count 9)))))) 1 0 = 8
    \<and> at2 (brightness (draw_tail 0
          (draw_head 0 (advance_drop 0 (fade_pass (run_ticks True window_4x1 seed_count 9)))))) 0 0 = 7
    \<and> at2 (brightness (draw_tail 0
          (draw_head 0 (advance_drop 0 (fade_pass (run_ticks True window_4x1 seed_count 9)))))) 3 0 = 10
    \<and> at2 (screen (draw_tail 0
          (draw_head 0 (advance_drop 0 (fade_pass (run_ticks True window_4x1 seed_count 9)))))) 1 0
        = matrix_chars ! 12
    \<and> grid_ok (fade_pass (run_ticks True window_4x1 seed_count 9))
    \<and> 0 < width (fade_pass (run_ticks True window_4x1 seed_count 9))
    \<and> brightness (fade_pass (run_ticks True window_4x1 seed_count 9)) = [[5], [6], [7], [0]]
    \<and> at2 (brightness (move_column 0 (fade_pass (run_ticks True window_4x1 seed_count 9)))) 1 0 = 8"
proof -
  let ?f = "fade_pass (run_ticks True window_4x1 seed_count 9)"
  have hf: "grid_ok ?f" "0 < width ?f" by code_simp+
  have vf: "at1 (drops ?f) 0 = 2" "at1 (lengths ?f) 0 = 7" "height ?f = 4" by code_simp+
  have vfb: "brightness ?f = [[5], [6], [7], [0]]" by code_simp
  have bf: "at2 (brightness ?f) 1 0 = 6" unfolding vfb by (simp add: at2_def)
  have move: "if at2 (brightness ?f) (at1 (drops ?f) 0 + 1 - i) 0 < 10 - i
         then at2 (brightness (move_column 0 ?f)) (at1 (drops ?f) 0 + 1 - i) 0 = max 1 (10 - i)
            \<and> at2 (screen (move_column 0 ?f)) (at1 (drops ?f) 0 + 1 - i) 0
                = matrix_chars ! (rng (draw_head 0 (advance_drop 0 ?f))
                     (drawn (draw_head 0 (advance_drop 0 ?f)) 0 i) mod 158)
         else at2 (brightness (move_column 0 ?f)) (at1 (drops ?f) 0 + 1 - i) 0
                = at2 (brightness ?f) (at1 (drops ?f) 0 + 1 - i) 0
            \<and> at2 (screen (move_column 0 ?f)) (at1 (drops ?f) 0 + 1 - i) 0
                = at2 (screen ?f) (at1 (drops ?f) 0 + 1 - i) 0"
    if "1 \<le> i \<and> i < at1 (lengths ?f) 0
        \<and> 0 \<le> at1 (drops ?f) 0 + 1 - i \<and> at1 (drops ?f) 0 + 1 - i < height ?f" for i
    using tail_write_rule [OF hf(1) _ hf(2)] that by blast
  have mv: "at2 (brightness (move_column 0 ?f)) 1 0 = 8"
    using move [of 2] by (simp add: vf bf cong: if_cong)
  let ?m = "draw_head 0 (advance_drop 0 (fade_pass (run_ticks True window_4x1 seed_count 9)))"
  have h: "grid_ok ?m" "0 < width ?m" by code_simp+
  have v: "at1 (drops ?m) 0 = 3" "at1 (lengths ?m) 0 = 7" "height ?m = 4" "width ?m = 1"
    by code_simp+
  have vb: "brightness ?m = [[5], [6], [7], [10]]" by code_simp
  have b: "at2 (brightness ?m) 2 0 = 7" "at2 (brightness ?m) 1 0 = 6" "at2 (brightness ?m) 0 0 = 5"
    "at2 (brightness ?m) 3 0 = 10"
    unfolding vb by (simp_all add: at2_def)
  have g: "rng ?m (drawn ?m 0 2) = 12" by code_simp
  note t = tail_write_rule [OF h(1) _ h(2)]
  have sweep: "if at2 (brightness ?m) (at1 (drops ?m) 0 - i) 0 < 10 - i
         then at2 (brightness (draw_tail 0 ?m)) (at1 (drops ?m) 0 - i) 0 = max 1 (10 - i)
            \<and> at2 (screen (draw_tail 0 ?m)) (at1 (drops ?m) 0 - i) 0
                = matrix_chars ! (rng ?m (drawn ?m 0 i) mod 158)
         else at2 (brightness (draw_tail 0 ?m)) (at1 (drops ?m) 0 - i) 0
                = at2 (brightness ?m) (at1 (drops ?m) 0 - i) 0
            \<and> at2 (screen (draw_tail 0 ?m)) (at1 (drops ?m) 0 - i) 0
                = at2 (screen ?m) (at1 (drops ?m) 0 - i) 0"
    if "1 \<le> i \<and> i < at1 (lengths ?m) 0
        \<and> 0 \<le> at1 (drops ?m) 0 - i \<and> at1 (drops ?m) 0 - i < height ?m" for i
    using t that by blast
  have others: "at2 (brightness (draw_tail 0 ?m)) row 0 = at2 (brightness ?m) row 0"
    if "row \<in> {0..<height ?m}" "\<not> (1 \<le> at1 (drops ?m) 0 - row
         \<and> at1 (drops ?m) 0 - row < at1 (lengths ?m) 0)" for row
    using t that h(2) by auto
  have "at2 (brightness (draw_tail 0 ?m)) 2 0 = 9"
    using sweep [of 1] by (simp add: v b cong: if_cong)
  moreover have "at2 (brightness (draw_tail 0 ?m)) 1 0 = 8"
    "at2 (screen (draw_tail 0 ?m)) 1 0 = matrix_chars ! 12"
    using sweep [of 2] g by (simp_all add: v b cong: if_cong)
  moreover have "at2 (brightness (draw_tail 0 ?m)) 0 0 = 7"
    using sweep [of 3] by (simp add: v b cong: if_cong)
  moreover have "at2 (brightness (draw_tail 0 ?m)) 3 0 = 10"
    using others [of 3] by (simp add: v b)
  ultimately show ?thesis using h vb hf vfb mv by simp
qed

text \<open>
  C6. On a terminal of one row and one column, with a generator that delivers 0 forever,
  the seventh tick brings the head to row 0 and stores brightness 10 there, with the glyph
  \<open>matrix_chars[0]\<close>. That glyph is the byte \<open>0xE3\<close>, the first of the three bytes of the
  first katakana, which is none of the 66 symbols of the literal; and of the 158 indices
  that \<open>char_dist\<close> draws from, 46 give this byte and one gives the digit \<open>0\<close>.
\<close>

theorem head_glyph_is_a_byte:
  "at1 (drops (update (run_ticks True window_1x1 seed_zero 6))) 0 = 0
    \<and> at2 (brightness (update (run_ticks True window_1x1 seed_zero 6))) 0 0 = 10
    \<and> at2 (screen (update (run_ticks True window_1x1 seed_zero 6))) 0 0 = CHR 0xE3
    \<and> [CHR 0xE3] \<notin> set symbol_alphabet
    \<and> length symbol_alphabet = 66 \<and> concat symbol_alphabet = matrix_chars
    \<and> length matrix_chars = 158
    \<and> length (filter (\<lambda>k. matrix_chars ! k = CHR 0xE3) [0..<158]) = 46
    \<and> length (filter (\<lambda>k. matrix_chars ! k = CHR ''0'') [0..<158]) = 1"
  by code_simp

text \<open>
  C7. Two runs of the program that start from the same seed on terminals of the same size
  hold the same brightness grid, and indeed the same object, after the same number of
  ticks, whatever else differs around them (keys, terminal or not, content of the stack):
  the object after \<open>n\<close> ticks is \<open>run_ticks\<close> of the seed, the size and \<open>n\<close>. The order of
  evaluation of line 70 belongs to the compiled program, so it is the same in both runs.
\<close>

theorem same_seed_same_grid:
  assumes "clock wd1 = clock wd2" and "terminal_size wd1 = terminal_size wd2"
    and "left_to_right wd1 = left_to_right wd2"
    and "construct wd1 = Done m1" and "construct wd2 = Done m2"
  shows "brightness (ticks n m1) = brightness (ticks n m2)
    \<and> ticks n m1 = run_ticks (left_to_right wd1) (terminal_size wd1) (clock wd1) n"
proof -
  have "m1 = Matrix (left_to_right wd1) (terminal_size wd1) (clock wd1)"
    using assms(4) by (simp add: construct_def split: alloc.splits)
  moreover have "m2 = Matrix (left_to_right wd2) (terminal_size wd2) (clock wd2)"
    using assms(5) by (simp add: construct_def split: alloc.splits)
  ultimately show ?thesis using assms(1-3) by (simp add: run_ticks_def)
qed

theorem same_seed_same_grid_witness:
  "clock terminal_a = clock terminal_b \<and> terminal_size terminal_a = terminal_size terminal_b
    \<and> left_to_right terminal_a = left_to_right terminal_b
    \<and> construct terminal_a = Done (Matrix True window_5x3 seed_s)
    \<and> construct terminal_b = Done (Matrix True window_5x3 seed_s)
    \<and> brightness (ticks 20 (Matrix True window_5x3 seed_s))
        = [[0, 0, 4], [0, 0, 5], [0, 0, 6], [0, 0, 7], [0, 0, 8]]"
proof -
  have h: "clock terminal_a = clock terminal_b" "terminal_size terminal_a = terminal_size terminal_b"
    "left_to_right terminal_a = left_to_right terminal_b"
    "construct terminal_a = Done (Matrix True window_5x3 seed_s)"
    "construct terminal_b = Done (Matrix True window_5x3 seed_s)"
    by (simp_all add: terminal_a_def terminal_b_def terminal_size_def construct_def
        window_5x3_def million_def)
  have v: "brightness (run_ticks True window_5x3 seed_s 20)
      = [[0, 0, 4], [0, 0, 5], [0, 0, 6], [0, 0, 7], [0, 0, 8]]"
    by code_simp
  have "ticks 20 (Matrix True window_5x3 seed_s)
      = run_ticks (left_to_right terminal_a) (terminal_size terminal_a) (clock terminal_a) 20"
    using same_seed_same_grid [OF h] by blast
  then show ?thesis using h v by (simp add: terminal_a_def terminal_size_def)
qed

text \<open>
  C8. What \<open>render\<close> writes is the cursor-home sequence followed by the rows of the grid
  from top to bottom, with one newline between two rows and none after the last. When
  every cell has brightness 0, each row is \<open>width\<close> spaces: after the cursor-home sequence
  the frame holds spaces and newlines only, so no colour sequence.
\<close>

theorem render_blank_and_separators:
  "render m = cursor_home @ join_rows (map (row_text m) [0..height m - 1])
    \<and> (blank m \<longrightarrow>
         render m = cursor_home
           @ join_rows (replicate (nat (height m)) (replicate (nat (width m)) CHR '' ''))
         \<and> set (drop (length cursor_home) (render m)) \<subseteq> {CHR '' '', CHR 0x0A})"
proof -
  have eq: "render m = cursor_home @ join_rows (map (row_text m) [0..height m - 1])"
    by (rule render_eq)
  have "set (join_rows (replicate (nat (height m)) (replicate (nat (width m)) CHR '' '')))
      \<subseteq> {CHR '' '', CHR 0x0A}"
    using set_join_rows [of "replicate (nat (height m)) (replicate (nat (width m)) CHR '' '')"]
    by auto
  then show ?thesis using eq by (simp add: rows_blank)
qed

theorem render_blank_and_separators_witness:
  "blank (Matrix True window_2x2 seed_a)
    \<and> render (Matrix True window_2x2 seed_a) = CHR 0x1B # ''[H'' @ ''  '' @ [CHR 0x0A] @ ''  ''"
proof -
  have b: "blank (Matrix True window_2x2 seed_a)" by code_simp
  have d: "height (Matrix True window_2x2 seed_a) = 2" "width (Matrix True window_2x2 seed_a) = 2"
    by code_simp+
  have "render (Matrix True window_2x2 seed_a) = cursor_home
           @ join_rows (replicate (nat (height (Matrix True window_2x2 seed_a)))
               (replicate (nat (width (Matrix True window_2x2 seed_a))) CHR '' ''))"
    using render_blank_and_separators [of "Matrix True window_2x2 seed_a"] b by blast
  then show ?thesis using b by (simp add: d cursor_home_def numeral_2_eq_2)
qed

text \<open>
  C9. The claim, that a failure to query or to set up the terminal ends the process with
  exit code 1 and a diagnostic, fails: in the world \<open>no_terminal\<close> the standard streams are
  no terminal, so \<open>ioctl\<close> fails and the size is what the stack held, one row and one
  column; a character is waiting at the first call of \<open>kbhit\<close>. The process exits with
  code 0 and writes nothing to the error stream.
\<close>

theorem terminal_failure_exits_0:
  "\<not> tty no_terminal \<and> terminal_size no_terminal = stack no_terminal
    \<and> main no_terminal =
        Some (Exit 0 [System ''clear'', Stdout (CHR 0x1B # ''[?25l''),
                  Stdout (''Matrix Digital Rain - Press any key to exit'' @ [CHR 0x0A]),
                  Usleep 2000000,
                  Stdout (CHR 0x1B # ''[?25h''), Stdout (CHR 0x1B # ''[0m''), System ''clear'',
                  Stdout (''Matrix effect terminated.'' @ [CHR 0x0A])])"
  by (simp add: main_def construct_def run_def run_loop.simps no_terminal_def terminal_size_def
      clearScreen_def hideCursor_def showCursor_def resetColor_def sleep_ms_def
      window_1x1_def million_def)

text \<open>
  C9, as amended. A failure of the terminal is never looked at: the process without a
  terminal ends as the process does on a terminal of the size that the failed \<open>ioctl\<close> left
  in \<open>w\<close>. With that size, whichever way it was read: if the allocation of the grid throws,
  the exception is caught in \<open>main\<close>, \<open>Error: \<close> and its message go to the error stream and
  the exit code is 1; if the system kills the process during the allocation, \<open>main\<close> returns
  no code; and if the grid is allocated, the process exits with code 0 and nothing on the
  error stream as soon as a call of \<open>kbhit\<close> finds a character, and never exits when none
  does.
\<close>

theorem exit_code_by_allocation_and_keys:
  "main wd = main (wd\<lparr>tty := True, window := terminal_size wd\<rparr>)
    \<and> (allocator wd (uint (ws_row (terminal_size wd))) (uint (ws_col (terminal_size wd))) = Refused
          \<longrightarrow> main wd = Some (Exit 1 [Stderr (''Error: std::bad_alloc'' @ [CHR 0x0A])]))
    \<and> (allocator wd (uint (ws_row (terminal_size wd))) (uint (ws_col (terminal_size wd))) = Fatal
          \<longrightarrow> main wd = Some Signalled)
    \<and> (allocator wd (uint (ws_row (terminal_size wd))) (uint (ws_col (terminal_size wd))) = Granted
          \<and> (\<exists>n. keys wd n) \<longrightarrow>
          (\<exists>tr. main wd = Some (Exit 0 tr) \<and> stderr_text tr = []))
    \<and> (allocator wd (uint (ws_row (terminal_size wd))) (uint (ws_col (terminal_size wd))) = Granted
          \<and> (\<forall>n. \<not> keys wd n) \<longrightarrow> main wd = None)"
proof (intro conjI impI)
  have ts: "terminal_size (wd\<lparr>tty := True, window := terminal_size wd\<rparr>) = terminal_size wd"
    by (simp add: terminal_size_def)
  have c: "construct (wd\<lparr>tty := True, window := terminal_size wd\<rparr>) = construct wd"
    unfolding construct_def ts by (simp split: alloc.splits)
  have r: "run (wd\<lparr>tty := True, window := terminal_size wd\<rparr>) m = run wd m" for m
    by (simp add: run_def)
  show "main wd = main (wd\<lparr>tty := True, window := terminal_size wd\<rparr>)"
    unfolding main_def c by (simp add: r split: attempt.splits)
next
  assume "allocator wd (uint (ws_row (terminal_size wd))) (uint (ws_col (terminal_size wd))) = Refused"
  then show "main wd = Some (Exit 1 [Stderr (''Error: std::bad_alloc'' @ [CHR 0x0A])])"
    by (simp add: main_def construct_def what_def)
next
  assume "allocator wd (uint (ws_row (terminal_size wd))) (uint (ws_col (terminal_size wd))) = Fatal"
  then show "main wd = Some Signalled"
    by (simp add: main_def construct_def)
next
  assume a: "allocator wd (uint (ws_row (terminal_size wd))) (uint (ws_col (terminal_size wd))) = Granted
    \<and> (\<exists>n. keys wd n)"
  then obtain n where "keys wd (0 + n)" by auto
  then obtain m' tr' where r: "run_loop (keys wd) 0
      (Matrix (left_to_right wd) (terminal_size wd) (clock wd))
      [clearScreen, hideCursor,
       Stdout (''Matrix Digital Rain - Press any key to exit'' @ [CHR 0x0A]), sleep_ms 2000]
      = Some (m', tr')"
    and q: "stderr_text tr' = stderr_text [clearScreen, hideCursor,
       Stdout (''Matrix Digital Rain - Press any key to exit'' @ [CHR 0x0A]), sleep_ms 2000]"
    using run_loop_returns [of "keys wd" 0 n] by blast
  have "stderr_text tr' = []"
    unfolding q by (simp add: clearScreen_def hideCursor_def sleep_ms_def)
  then have "stderr_text (tr' @ [showCursor, Stdout resetColor, clearScreen,
      Stdout (''Matrix effect terminated.'' @ [CHR 0x0A])]) = []"
    by (simp add: stderr_text_append clearScreen_def showCursor_def)
  then show "\<exists>tr. main wd = Some (Exit 0 tr) \<and> stderr_text tr = []"
    using a r by (simp add: main_def construct_def run_def)
next
  assume a: "allocator wd (uint (ws_row (terminal_size wd))) (uint (ws_col (terminal_size wd))) = Granted
    \<and> (\<forall>n. \<not> keys wd n)"
  have "run_loop (keys wd) 0 m tr = None" for m tr
  proof (cases "run_loop (keys wd) 0 m tr")
    case None
    then show ?thesis .
  next
    case (Some r)
    then show ?thesis using run_loop_needs_key [OF Some] a by simp
  qed
  then show "main wd = None" using a by (simp add: main_def construct_def run_def)
qed

theorem exit_code_by_allocation_and_keys_witness:
  "\<not> tty no_terminal \<and> keys no_terminal 0
    \<and> allocator no_terminal (uint (ws_row (terminal_size no_terminal)))
         (uint (ws_col (terminal_size no_terminal))) = Granted
    \<and> (\<exists>tr. main no_terminal = Some (Exit 0 tr) \<and> stderr_text tr = [])
    \<and> \<not> tty no_terminal_garbage
    \<and> allocator no_terminal_garbage (uint (ws_row (terminal_size no_terminal_garbage)))
         (uint (ws_col (terminal_size no_terminal_garbage))) = Refused
    \<and> main no_terminal_garbage = Some (Exit 1 [Stderr (''Error: std::bad_alloc'' @ [CHR 0x0A])])
    \<and> \<not> tty no_terminal_killed
    \<and> allocator no_terminal_killed (uint (ws_row (terminal_size no_terminal_killed)))
         (uint (ws_col (terminal_size no_terminal_killed))) = Fatal
    \<and> main no_terminal_killed = Some Signalled"
proof -
  have h: "\<not> tty no_terminal" "keys no_terminal 0"
    "allocator no_terminal (uint (ws_row (terminal_size no_terminal)))
         (uint (ws_col (terminal_size no_terminal))) = Granted"
    by (simp_all add: no_terminal_def terminal_size_def window_1x1_def million_def)
  have g: "\<not> tty no_terminal_garbage"
    "allocator no_terminal_garbage (uint (ws_row (terminal_size no_terminal_garbage)))
         (uint (ws_col (terminal_size no_terminal_garbage))) = Refused"
    by (simp_all add: no_terminal_garbage_def terminal_size_def million_def)
  have k: "\<not> tty no_terminal_killed"
    "allocator no_terminal_killed (uint (ws_row (terminal_size no_terminal_killed)))
         (uint (ws_col (terminal_size no_terminal_killed))) = Fatal"
    by (simp_all add: no_terminal_killed_def terminal_size_def overcommitted_def)
  have "\<exists>tr. main no_terminal = Some (Exit 0 tr) \<and> stderr_text tr = []"
    using exit_code_by_allocation_and_keys [of no_terminal] h by blast
  moreover have "main no_terminal_garbage
      = Some (Exit 1 [Stderr (''Error: std::bad_alloc'' @ [CHR 0x0A])])"
    using exit_code_by_allocation_and_keys [of no_terminal_garbage] g by blast
  moreover have "main no_terminal_killed = Some Signalled"
    using exit_code_by_allocation_and_keys [of no_terminal_killed] k by blast
  ultimately show ?thesis using h g k by blast
qed

text \<open>
  C10. In every state reached from the constructor by any number of ticks, the glyph of a
  cell is the space character exactly when its brightness is 0. The fade pass of the next
  tick turns into the space the glyphs of exactly the cells whose brightness it brings to
  0, those of brightness at most 3, and keeps the others; after it the glyph is again the
  space exactly when the brightness is 0; and no character of \<open>matrix_chars\<close>, from which
  head and tail take their glyphs, is the space.
\<close>

theorem glyph_blank_iff_dark:
  assumes "m = run_ticks spawn_first w seed n"
    and "0 \<le> row" "row < height m" "0 \<le> col" "col < width m"
  shows "(at2 (screen m) row col = CHR '' '' \<longleftrightarrow> at2 (brightness m) row col = 0)
    \<and> at2 (screen (fade_pass m)) row col
        = (if at2 (brightness m) row col \<le> 3 then CHR '' '' else at2 (screen m) row col)
    \<and> (at2 (screen (fade_pass m)) row col = CHR '' '' \<longleftrightarrow> at2 (brightness (fade_pass m)) row col = 0)
    \<and> CHR '' '' \<notin> set matrix_chars"
proof -
  have m: "ok m" unfolding assms(1) by (rule ok_run)
  then have f: "ok (fade_pass m)" by (rule fade_pass_ok)
  have df: "same_columns m (fade_pass m)" by (rule fade_pass_same_columns)
  have "cell (fade_pass m) row col = faded (cell m row col)"
    using m assms(2-5) by (intro fade_pass_at) (simp_all add: ok_def)
  then have clears: "at2 (screen (fade_pass m)) row col
        = (if at2 (brightness m) row col \<le> 3 then CHR '' '' else at2 (screen m) row col)"
    by (simp add: cell_def faded_def)
  have "cell_ok (at2 (screen m) row col) (at2 (brightness m) row col)"
    using m assms(2-5) by (intro grid_ok_cellD) (simp_all add: ok_def)
  moreover have "cell_ok (at2 (screen (fade_pass m)) row col) (at2 (brightness (fade_pass m)) row col)"
    using f assms(2-5) df
    by (intro grid_ok_cellD) (simp_all add: ok_def same_columns_def same_dims_def)
  ultimately show ?thesis
    using space_not_in_matrix_chars clears by (simp add: cell_ok_def)
qed

theorem glyph_blank_iff_dark_witness:
  "0 \<le> (0::int) \<and> 0 < height (run_ticks True window_1x1 seed_a 8)
    \<and> 0 < width (run_ticks True window_1x1 seed_a 8)
    \<and> at2 (screen (run_ticks True window_1x1 seed_a 8)) 0 0 = CHR 0x82
    \<and> at2 (brightness (run_ticks True window_1x1 seed_a 8)) 0 0 = 9
    \<and> at2 (screen (fade_pass (run_ticks True window_1x1 seed_a 8))) 0 0 = CHR 0x82
    \<and> at2 (brightness (fade_pass (run_ticks True window_1x1 seed_a 8))) 0 0 \<noteq> 0"
proof -
  have h: "0 < height (run_ticks True window_1x1 seed_a 8)"
    "0 < width (run_ticks True window_1x1 seed_a 8)"
    by code_simp+
  have v: "at2 (screen (run_ticks True window_1x1 seed_a 8)) 0 0 = CHR 0x82"
    "at2 (brightness (run_ticks True window_1x1 seed_a 8)) 0 0 = 9"
    by code_simp+
  note t = glyph_blank_iff_dark [where row = 0 and col = 0, OF refl _ h(1) _ h(2)]
  have s: "at2 (screen (fade_pass (run_ticks True window_1x1 seed_a 8))) 0 0 = CHR 0x82"
    using t v by simp
  have "at2 (screen (fade_pass (run_ticks True window_1x1 seed_a 8))) 0 0 = CHR '' '' \<longleftrightarrow>
      at2 (brightness (fade_pass (run_ticks True window_1x1 seed_a 8))) 0 0 = 0"
    using t by blast
  then have "at2 (brightness (fade_pass (run_ticks True window_1x1 seed_a 8))) 0 0 \<noteq> 0"
    unfolding s by simp
  then show ?thesis using h v s by simp
qed

end
